theory Spec2Isabelle
  imports Main "HOL-Library.Word" "HOL-Library.Sublist"
begin

section \<open>Data model\<close>

text \<open>
  Go's \<open>int\<close> is a 64-bit two's-complement integer on the platforms the program is
  built for: it is a \<open>64 word\<close> here, compared with the signed orders \<open><s\<close> and
  \<open>\<le>s\<close>; \<open>+\<close> and \<open>-\<close> wrap around as in Go. A Go \<open>string\<close> is a sequence of
  bytes, a \<open>char list\<close> here; a character outside ASCII is its UTF-8 bytes.
\<close>

type_synonym goint = "64 word"

text \<open>\<open>type tocEntry struct\<close> of toc.go.\<close>

record tocEntry =
  Number :: string
  Title :: string
  Page :: goint
  Depth :: goint

text \<open>
  \<open>type Section struct\<close> of types.go. The struct holds a slice of its own type, so it
  is a datatype; the selectors carry the prefix \<open>s\<close>. Sections are copied by value in
  the source, and so are they here.
\<close>

datatype Section = Section
  (sNumber: string) (sTitle: string) (sStart: goint) (sEnd: goint)
  (sDepth: goint) (sSlug: string) (sChildren: "Section list")

section \<open>The string functions of Go's library that the code calls\<close>

text \<open>
  \<open>unicode.IsSpace\<close> on the bytes of a string: \<open>spaceWidth s\<close> is the number of bytes
  of the white-space character that \<open>s\<close> starts with, and 0 when it starts with none.
  The characters are the ASCII ones (tab, line feed, vertical tab, form feed, carriage
  return, space), U+0085, U+00A0, U+1680, U+2000 to U+200A, U+2028, U+2029, U+202F,
  U+205F and U+3000, in UTF-8. A leading byte of UTF-8 never continues another
  character, so reading these sequences wherever they stand agrees with Go's decoder,
  also on text that is not valid UTF-8.
\<close>

definition isAsciiSpace :: "char \<Rightarrow> bool" where
  "isAsciiSpace c \<longleftrightarrow> c = CHR 0x09 \<or> c = CHR 0x0A \<or> c = CHR 0x0B \<or> c = CHR 0x0C
     \<or> c = CHR 0x0D \<or> c = CHR 0x20"

fun spaceWidth :: "string \<Rightarrow> nat" where
  "spaceWidth [] = 0"
| "spaceWidth (c # cs) =
     (if isAsciiSpace c then 1
      else if c = CHR 0xC2 then
        (case cs of d # _ \<Rightarrow> if d = CHR 0x85 \<or> d = CHR 0xA0 then 2 else 0 | [] \<Rightarrow> 0)
      else if c = CHR 0xE1 then
        (case cs of d # e # _ \<Rightarrow> if d = CHR 0x9A \<and> e = CHR 0x80 then 3 else 0 | _ \<Rightarrow> 0)
      else if c = CHR 0xE2 then
        (case cs of d # e # _ \<Rightarrow>
           if d = CHR 0x80 \<and> (of_char e \<ge> (0x80::int) \<and> of_char e \<le> (0x8A::int)
                \<or> e = CHR 0xA8 \<or> e = CHR 0xA9 \<or> e = CHR 0xAF) then 3
           else if d = CHR 0x81 \<and> e = CHR 0x9F then 3 else 0
         | _ \<Rightarrow> 0)
      else if c = CHR 0xE3 then
        (case cs of d # e # _ \<Rightarrow> if d = CHR 0x80 \<and> e = CHR 0x80 then 3 else 0 | _ \<Rightarrow> 0)
      else 0)"

text \<open>
  \<open>strings.ReplaceAll(s, old, new)\<close> for a non-empty \<open>old\<close>: the occurrences are taken
  from left to right and do not overlap. The code never passes an empty \<open>old\<close>, which
  is returned unchanged here.
\<close>

function replaceAll :: "string \<Rightarrow> string \<Rightarrow> string \<Rightarrow> string" where
  "replaceAll old new [] = []"
| "replaceAll old new (c # cs) =
     (if old \<noteq> [] \<and> prefix old (c # cs)
      then new @ replaceAll old new (drop (length old - 1) cs)
      else c # replaceAll old new cs)"
  by pat_completeness auto
termination
  by (relation "measure (\<lambda>(old, new, s). length s)") auto

text \<open>\<open>strings.Contains\<close>.\<close>

fun contains :: "string \<Rightarrow> string \<Rightarrow> bool" where
  "contains [] sub = (sub = [])"
| "contains (c # cs) sub = (prefix sub (c # cs) \<or> contains cs sub)"

text \<open>
  \<open>strings.TrimSpace\<close>: white space is cut from the front, then from the back.
  \<open>lastSpaceWidth s\<close> is the number of bytes of the white-space character that \<open>s\<close>
  ends with, and 0 when it ends with none.
\<close>

function trimLeftSpace :: "string \<Rightarrow> string" where
  "trimLeftSpace s = (if spaceWidth s = 0 then s else trimLeftSpace (drop (spaceWidth s) s))"
  by pat_completeness auto
termination
proof (relation "measure length")
  show "wf (measure length)" by simp
next
  fix s :: string
  assume "spaceWidth s \<noteq> 0"
  then show "(drop (spaceWidth s) s, s) \<in> measure length"
    by (cases s) auto
qed

definition lastSpaceWidth :: "string \<Rightarrow> nat" where
  "lastSpaceWidth s =
     (let n = length s in
      if 1 \<le> n \<and> spaceWidth (drop (n - 1) s) = 1 then 1
      else if 2 \<le> n \<and> spaceWidth (drop (n - 2) s) = 2 then 2
      else if 3 \<le> n \<and> spaceWidth (drop (n - 3) s) = 3 then 3
      else 0)"

function trimRightSpace :: "string \<Rightarrow> string" where
  "trimRightSpace s =
     (if lastSpaceWidth s = 0 then s
      else trimRightSpace (take (length s - lastSpaceWidth s) s))"
  by pat_completeness auto
termination
proof (relation "measure length")
  show "wf (measure length)" by simp
next
  fix s :: string
  assume "lastSpaceWidth s \<noteq> 0"
  then have "s \<noteq> [] \<and> 0 < lastSpaceWidth s"
    by (auto simp: lastSpaceWidth_def)
  then show "(take (length s - lastSpaceWidth s) s, s) \<in> measure length"
    by (cases s) auto
qed

definition trimSpace :: "string \<Rightarrow> string" where
  "trimSpace s = trimRightSpace (trimLeftSpace s)"

text \<open>
  \<open>strings.ToLower\<close>. ASCII capitals are lowered. Of the characters outside ASCII,
  Go lowers exactly two to an ASCII letter: U+0130 (bytes C4 B0) to \<open>i\<close> and U+212A
  (bytes E2 84 AA) to \<open>k\<close>. Every other character outside ASCII is lowered by Go to a
  character outside ASCII again, and a byte that is not UTF-8 to U+FFFD; such bytes
  are kept as they are here. The code uses the lowered string only to look for an
  ASCII phrase and to build a slug in which every byte outside \<open>a-z0-9-\<close> becomes a
  hyphen, and both read the same from either string.
\<close>

definition lowerAscii :: "char \<Rightarrow> char" where
  "lowerAscii c =
     (if (0x41::int) \<le> of_char c \<and> of_char c \<le> (0x5A::int)
      then char_of (of_char c + (32::int)) else c)"

fun toLower :: "string \<Rightarrow> string" where
  "toLower [] = []"
| "toLower (c # cs) =
     (if c = CHR 0xC4 \<and> prefix [CHR 0xB0] cs then CHR ''i'' # toLower (tl cs)
      else if c = CHR 0xE2 \<and> prefix [CHR 0x84, CHR 0xAA] cs then CHR ''k'' # toLower (tl (tl cs))
      else lowerAscii c # toLower cs)"

text \<open>\<open>strings.Trim(s, "-")\<close>: the hyphens at both ends are cut.\<close>

definition trimHyphens :: "string \<Rightarrow> string" where
  "trimHyphens s = rev (dropWhile (\<lambda>c. c = CHR ''-'') (rev (dropWhile (\<lambda>c. c = CHR ''-'') s)))"

section \<open>util.go: slugify\<close>

text \<open>
  \<open>nonSlug.ReplaceAllString(s, "-")\<close> with \<open>nonSlug = [^a-z0-9\-]+\<close>: every maximal
  run of bytes outside the class becomes one hyphen.
\<close>

definition isSlugChar :: "char \<Rightarrow> bool" where
  "isSlugChar c \<longleftrightarrow>
     (0x61::int) \<le> of_char c \<and> of_char c \<le> (0x7A::int)
     \<or> (0x30::int) \<le> of_char c \<and> of_char c \<le> (0x39::int) \<or> c = CHR ''-''"

function nonSlugReplace :: "string \<Rightarrow> string" where
  "nonSlugReplace [] = []"
| "nonSlugReplace (c # cs) =
     (if isSlugChar c then c # nonSlugReplace cs
      else CHR ''-'' # nonSlugReplace (dropWhile (\<lambda>d. \<not> isSlugChar d) cs))"
  by pat_completeness auto
termination
  by (relation "measure length") (auto simp: length_dropWhile_le less_Suc_eq_le)

lemma replaceAll_length_le:
  "length new \<le> length old \<Longrightarrow> length (replaceAll old new s) \<le> length s"
proof (induction old new s rule: replaceAll.induct)
  case (1 old new)
  then show ?case by simp
next
  case (2 old new c cs)
  show ?case
  proof (cases "old \<noteq> [] \<and> prefix old (c # cs)")
    case True
    then have len: "length old \<le> Suc (length cs)"
      using prefix_length_le by fastforce
    from True 2 have "length (replaceAll old new (drop (length old - 1) cs))
        \<le> length cs - (length old - 1)"
      by simp
    with True len 2(3) show ?thesis by (cases old) auto
  next
    case False
    with 2 show ?thesis by auto
  qed
qed

lemma replaceAll_shrinks:
  "contains s old \<Longrightarrow> old \<noteq> [] \<Longrightarrow> length new < length old
     \<Longrightarrow> length (replaceAll old new s) < length s"
proof (induction old new s rule: replaceAll.induct)
  case (1 old new)
  then show ?case by simp
next
  case (2 old new c cs)
  show ?case
  proof (cases "prefix old (c # cs)")
    case True
    then have len: "length old \<le> Suc (length cs)"
      using prefix_length_le by fastforce
    have "length (replaceAll old new (drop (length old - 1) cs)) \<le> length cs - (length old - 1)"
      using replaceAll_length_le [of new old "drop (length old - 1) cs"] 2(5) by simp
    with True len 2(4,5) show ?thesis by (cases old) auto
  next
    case False
    with 2 show ?thesis by auto
  qed
qed

text \<open>The loop \<open>for strings.Contains(s, "--") { s = strings.ReplaceAll(s, "--", "-") }\<close>.\<close>

function collapseHyphens :: "string \<Rightarrow> string" where
  "collapseHyphens s =
     (if contains s ''--'' then collapseHyphens (replaceAll ''--'' ''-'' s) else s)"
  by pat_completeness auto
termination
  by (relation "measure length") (auto intro: replaceAll_shrinks)

definition slugify :: "string \<Rightarrow> string" where
  "slugify s0 =
     (let s = toLower s0;
          s = trimSpace s;
          s = replaceAll '' '' ''-'' s;
          s = replaceAll ''/'' ''-'' s;
          s = replaceAll ''.'' ''-'' s;
          s = nonSlugReplace s;
          s = trimHyphens s
      in collapseHyphens s)"

section \<open>toc.go: buildSections\<close>

text \<open>
  The loop \<open>for i, e := range entries\<close>: \<open>i\<close> is the index of \<open>e\<close>, the list argument
  holds the entries from \<open>e\<close> on, and \<open>sections\<close> is the slice built so far.
  \<open>entries[i+1]\<close> is read only under the guard \<open>i < n-1\<close>.
\<close>

fun buildSections_loop ::
  "tocEntry list \<Rightarrow> goint \<Rightarrow> nat \<Rightarrow> tocEntry list \<Rightarrow> Section list \<Rightarrow> Section list" where
  "buildSections_loop entries maxDepth i [] sections = sections"
| "buildSections_loop entries maxDepth i (e # rest) sections =
     (if maxDepth <s Depth e then buildSections_loop entries maxDepth (i + 1) rest sections
      else
        let end0 = Page e;
            end1 = (if int i < int (length entries) - 1
                    then (let end2 = Page (entries ! (i + 1)) - 1
                          in if end2 <s Page e then Page e else end2)
                    else end0);
            slug = slugify (Number e @ ''-'' @ Title e)
        in buildSections_loop entries maxDepth (i + 1) rest
             (sections @ [Section (Number e) (Title e) (Page e) end1 (Depth e) slug []]))"

definition buildSections :: "tocEntry list \<Rightarrow> goint \<Rightarrow> Section list" where
  "buildSections entries maxDepth0 =
     (let maxDepth = (if maxDepth0 \<le>s 0 then 10 else maxDepth0)
      in buildSections_loop entries maxDepth 0 entries [])"

section \<open>Hierarchy assembly: attachChildren, rebuildWithChildrenOrder, buildHierarchy\<close>

text \<open>
  \<open>p.Children = append(p.Children, child)\<close> on a copy \<open>p\<close> of a section: the copy with
  the child added at the end of its children.
\<close>

definition appendChild :: "Section \<Rightarrow> Section \<Rightarrow> Section" where
  "appendChild p child =
     Section (sNumber p) (sTitle p) (sStart p) (sEnd p) (sDepth p) (sSlug p)
       (sChildren p @ [child])"

text \<open>
  The backward scan of attachChildren, \<open>for j := i - 1; j >= 0; j--\<close>: the third
  argument is \<open>j + 1\<close>, and \<open>None\<close> is \<open>parentIdx == -1\<close>.
\<close>

fun findParent :: "Section list \<Rightarrow> Section \<Rightarrow> nat \<Rightarrow> nat option" where
  "findParent nodes s 0 = None"
| "findParent nodes s (Suc j) =
     (if sDepth (nodes ! j) <s sDepth s \<and> prefix (sNumber (nodes ! j) @ ''.'') (sNumber s)
      then Some j else findParent nodes s j)"

text \<open>
  One round of the loop \<open>for i := range nodes\<close> of attachChildren, on the pair of
  \<open>nodes\<close> and \<open>roots\<close>. \<open>nodes[i]\<close> is copied as it is in round \<open>i\<close>, into
  \<open>roots\<close> or into the children of the copy stored back at \<open>nodes[parentIdx]\<close>.
\<close>

definition attachStep :: "Section list \<times> Section list \<Rightarrow> nat \<Rightarrow> Section list \<times> Section list" where
  "attachStep st i =
     (case st of (nodes, roots) \<Rightarrow>
        (case findParent nodes (nodes ! i) i of
           None \<Rightarrow> (nodes, roots @ [nodes ! i])
         | Some parentIdx \<Rightarrow>
             (nodes[parentIdx := appendChild (nodes ! parentIdx) (nodes ! i)], roots)))"

text \<open>
  The map \<open>byNumber\<close> is filled in the order of \<open>nodes\<close>, so that a later node
  with the same number replaces an earlier one.
\<close>

definition rebuildWithChildrenOrder :: "Section list \<Rightarrow> Section list \<Rightarrow> Section list" where
  "rebuildWithChildrenOrder roots nodes =
     (let byNumber = foldl (\<lambda>m n. m(sNumber n \<mapsto> n)) Map.empty nodes
      in map (\<lambda>r. case byNumber (sNumber r) of Some v \<Rightarrow> v | None \<Rightarrow> r) roots)"

definition attachChildren :: "Section list \<Rightarrow> Section list" where
  "attachChildren flat =
     (case foldl attachStep (flat, []) [0..<length flat] of
        (nodes, roots) \<Rightarrow> rebuildWithChildrenOrder roots nodes)"

text \<open>
  buildHierarchy first runs a loop over the sections that keeps \<open>roots\<close>, a \<open>stack\<close>
  of indices and \<open>out\<close>, and then returns \<open>attachChildren(sections)\<close> without using
  what the loop built. The loop is modelled because it can panic: \<open>None\<close> is a
  run-time panic of Go (a slice bound or an index out of range).

  \<open>for len(stack) >= s.Depth { stack = stack[:len(stack)-1] }\<close>:
\<close>

function trimStack :: "nat list \<Rightarrow> goint \<Rightarrow> nat list option" where
  "trimStack stack depth =
     (if sint depth \<le> int (length stack)
      then (if stack = [] then None else trimStack (butlast stack) depth)
      else Some stack)"
  by pat_completeness auto
termination
  by (relation "measure (\<lambda>(stack, depth). length stack)") auto

text \<open>The body of \<open>for _, s := range sections\<close> on the triple of \<open>roots\<close>, \<open>stack\<close>, \<open>out\<close>.\<close>

definition hierarchyStep ::
  "Section list \<times> nat list \<times> Section list \<Rightarrow> Section
     \<Rightarrow> (Section list \<times> nat list \<times> Section list) option" where
  "hierarchyStep st s =
     (case st of (roots, stack0, out) \<Rightarrow>
        (case trimStack stack0 (sDepth s) of
           None \<Rightarrow> None
         | Some stack \<Rightarrow>
             if stack = [] then Some (roots @ [s], stack @ [length out], out @ [s])
             else
               let parentIdx = last stack in
               if length out \<le> parentIdx then None
               else
                 let parent = out ! parentIdx in
                 if prefix (sNumber parent @ ''.'') (sNumber s @ ''.'')
                    \<or> prefix (sNumber parent @ ''.'') (sNumber s)
                 then Some (roots, stack @ [length out],
                            out[parentIdx := appendChild parent s] @ [s])
                 else Some (roots @ [s], [length out], out @ [s])))"

fun hierarchyLoop ::
  "Section list \<times> nat list \<times> Section list \<Rightarrow> Section list
     \<Rightarrow> (Section list \<times> nat list \<times> Section list) option" where
  "hierarchyLoop st [] = Some st"
| "hierarchyLoop st (s # ss) =
     (case hierarchyStep st s of None \<Rightarrow> None | Some st' \<Rightarrow> hierarchyLoop st' ss)"

definition buildHierarchy :: "Section list \<Rightarrow> Section list option" where
  "buildHierarchy sections =
     (case hierarchyLoop ([], [], []) sections of
        None \<Rightarrow> None
      | Some _ \<Rightarrow> Some (attachChildren sections))"

section \<open>Regular expressions as Go's regexp package matches them\<close>

text \<open>
  The patterns of the source are written as terms of the datatype \<open>rx\<close> and run by a
  backtracking matcher. Go's regexp returns the leftmost match and, among the matches
  that start there, the one a backtracking search finds first (greedy operators try
  the longer match first, lazy ones the shorter); the matcher lists the ways to match
  in that order.

  A position in the text is the triple of the bytes before it (in reverse, the nearest
  first), the bytes after it, and the texts of the capture groups set so far. A class
  \<open>Chr\<close> reads one byte. Every class and literal of the source's patterns is ASCII, and
  \<open>.\<close> stands where the match goes on with an ASCII byte, so matching bytes agrees with
  Go's matching of characters.
\<close>

datatype rx =
    Eps
  | Chr "char \<Rightarrow> bool"
  | Cat rx rx
  | Alt rx rx
  | Star rx
  | LazyStar rx
  | Group nat rx
  | Bol
  | Eol
  | WordB

type_synonym rxpos = "string \<times> string \<times> string list"

text \<open>\<open>\w\<close> of \<open>\b\<close>: the ASCII letters, digits and the underscore.\<close>

definition isWordChar :: "char \<Rightarrow> bool" where
  "isWordChar c \<longleftrightarrow>
     (0x30::int) \<le> of_char c \<and> of_char c \<le> (0x39::int)
     \<or> (0x41::int) \<le> of_char c \<and> of_char c \<le> (0x5A::int)
     \<or> (0x61::int) \<le> of_char c \<and> of_char c \<le> (0x7A::int)
     \<or> c = CHR ''_''"

definition wordAt :: "string \<Rightarrow> bool" where
  "wordAt s = (case s of [] \<Rightarrow> False | c # _ \<Rightarrow> isWordChar c)"

text \<open>
  \<open>run r p\<close> lists the positions where a match of \<open>r\<close> that starts at \<open>p\<close> can end, the
  preferred first. A repetition goes round again only after a round that has read
  something; the repeated expressions of the source's patterns always read a byte.
\<close>

fun run :: "rx \<Rightarrow> rxpos \<Rightarrow> rxpos list" where
  "run Eps p = [p]"
| "run (Chr P) (pre, s, caps) =
     (case s of [] \<Rightarrow> [] | c # cs \<Rightarrow> if P c then [(c # pre, cs, caps)] else [])"
| "run (Cat a b) p = concat (map (run b) (run a p))"
| "run (Alt a b) p = run a p @ run b p"
| "run (Star r) p =
     concat (map (\<lambda>q. if length (fst (snd q)) < length (fst (snd p)) then run (Star r) q else [])
                 (run r p)) @ [p]"
| "run (LazyStar r) p =
     p # concat (map (\<lambda>q. if length (fst (snd q)) < length (fst (snd p))
                            then run (LazyStar r) q else [])
                     (run r p))"
| "run (Group k r) (pre, s, caps) =
     map (\<lambda>(pre', s', caps'). (pre', s', caps'[k := take (length s - length s') s]))
         (run r (pre, s, caps))"
| "run Bol (pre, s, caps) = (if pre = [] then [(pre, s, caps)] else [])"
| "run Eol (pre, s, caps) = (if s = [] then [(pre, s, caps)] else [])"
| "run WordB (pre, s, caps) =
     (if wordAt pre \<noteq> wordAt s then [(pre, s, caps)] else [])"

text \<open>\<open>r+\<close>, \<open>r+?\<close>, \<open>r?\<close> and a literal text.\<close>

definition Plus :: "rx \<Rightarrow> rx" where
  "Plus r = Cat r (Star r)"

definition LazyPlus :: "rx \<Rightarrow> rx" where
  "LazyPlus r = Cat r (LazyStar r)"

definition Opt :: "rx \<Rightarrow> rx" where
  "Opt r = Alt r Eps"

fun Lit :: "string \<Rightarrow> rx" where
  "Lit [] = Eps"
| "Lit (c # cs) = Cat (Chr (\<lambda>x. x = c)) (Lit cs)"

text \<open>
  \<open>FindStringSubmatch\<close> for a pattern with \<open>n\<close> capture groups: the match is looked for
  from each offset of the text in turn; the result holds the matched text at index 0
  and the text of group \<open>k\<close> at index \<open>k\<close>, the empty text for a group that took no
  part. \<open>None\<close> is Go's \<open>nil\<close>. The first argument is the text before the offset,
  reversed.
\<close>

fun findFrom :: "rx \<Rightarrow> nat \<Rightarrow> string \<Rightarrow> string \<Rightarrow> string list option" where
  "findFrom r n pre s =
     (case run r (pre, s, replicate (Suc n) []) of
        (pre', s', caps) # _ \<Rightarrow> Some (caps[0 := take (length s - length s') s])
      | [] \<Rightarrow> (case s of [] \<Rightarrow> None | c # cs \<Rightarrow> findFrom r n (c # pre) cs))"

definition FindStringSubmatch :: "rx \<Rightarrow> nat \<Rightarrow> string \<Rightarrow> string list option" where
  "FindStringSubmatch r n s = findFrom r n [] s"

definition MatchString :: "rx \<Rightarrow> string \<Rightarrow> bool" where
  "MatchString r s \<longleftrightarrow> FindStringSubmatch r 0 s \<noteq> None"

text \<open>The classes of the source's patterns: \<open>\d\<close> and \<open>[0-9]\<close>, \<open>\s\<close>, \<open>.\<close>, \<open>[A-Z]\<close>, \<open>[IVXLCDM]\<close>.\<close>

definition isDigit :: "char \<Rightarrow> bool" where
  "isDigit c \<longleftrightarrow> (0x30::int) \<le> of_char c \<and> of_char c \<le> (0x39::int)"

definition isReSpace :: "char \<Rightarrow> bool" where
  "isReSpace c \<longleftrightarrow> c = CHR 0x09 \<or> c = CHR 0x0A \<or> c = CHR 0x0C \<or> c = CHR 0x0D \<or> c = CHR 0x20"

definition isAnyButNewline :: "char \<Rightarrow> bool" where
  "isAnyButNewline c \<longleftrightarrow> c \<noteq> CHR 0x0A"

definition isUpper :: "char \<Rightarrow> bool" where
  "isUpper c \<longleftrightarrow> (0x41::int) \<le> of_char c \<and> of_char c \<le> (0x5A::int)"

definition isRoman :: "char \<Rightarrow> bool" where
  "isRoman c \<longleftrightarrow> c \<in> set ''IVXLCDM''"

section \<open>More of Go's library: Fields, Join, Split, TrimRight, Count, Atoi\<close>

text \<open>
  \<open>strings.Fields\<close>: the text is cut around the runs of white-space characters
  (\<open>unicode.IsSpace\<close>), and the pieces between them, none of them empty, are returned.
  The first argument is the field read so far.
\<close>

function fieldsFrom :: "string \<Rightarrow> string \<Rightarrow> string list" where
  "fieldsFrom cur [] = (if cur = [] then [] else [cur])"
| "fieldsFrom cur (c # cs) =
     (if spaceWidth (c # cs) = 0 then fieldsFrom (cur @ [c]) cs
      else (if cur = [] then [] else [cur])
             @ fieldsFrom [] (drop (spaceWidth (c # cs) - 1) cs))"
  by pat_completeness auto
termination
  by (relation "measure (\<lambda>(cur, s). length s)") auto

definition fields :: "string \<Rightarrow> string list" where
  "fields s = fieldsFrom [] s"

text \<open>\<open>strings.Join\<close>.\<close>

fun join :: "string list \<Rightarrow> string \<Rightarrow> string" where
  "join [] sep = []"
| "join [x] sep = x"
| "join (x # y # ys) sep = x @ sep @ join (y # ys) sep"

text \<open>
  \<open>strings.Split(s, "\n")\<close>: the pieces between the line feeds, one more than there
  are line feeds. The first argument is the piece read so far.
\<close>

fun splitFrom :: "string \<Rightarrow> string \<Rightarrow> string list" where
  "splitFrom cur [] = [cur]"
| "splitFrom cur (c # cs) =
     (if c = CHR 0x0A then cur # splitFrom [] cs else splitFrom (cur @ [c]) cs)"

definition splitLines :: "string \<Rightarrow> string list" where
  "splitLines s = splitFrom [] s"

text \<open>\<open>strings.TrimRight(s, " ")\<close>: the spaces at the end are cut.\<close>

definition trimRightSpaces :: "string \<Rightarrow> string" where
  "trimRightSpaces s = rev (dropWhile (\<lambda>c. c = CHR '' '') (rev s))"

text \<open>\<open>strings.Count(s, ".")\<close>.\<close>

definition countDots :: "string \<Rightarrow> nat" where
  "countDots s = length (filter (\<lambda>c. c = CHR ''.'') s)"

text \<open>
  \<open>strconv.Atoi\<close> on a text of decimal digits, the only texts the code passes to it
  (matches of \<open>\d+\<close>): the value of the numeral, and the greatest \<open>int\<close>, \<open>2^63 - 1\<close>,
  when the value does not fit (Go returns that value together with an error, which the code drops).
  For any other text the model returns 0.
\<close>

definition digitValue :: "char \<Rightarrow> int" where
  "digitValue c = of_char c - 0x30"

definition decimalValue :: "string \<Rightarrow> int" where
  "decimalValue s = foldl (\<lambda>a c. 10 * a + digitValue c) 0 s"

definition atoi :: "string \<Rightarrow> goint" where
  "atoi s =
     (if s \<noteq> [] \<and> list_all isDigit s
      then (if decimalValue s \<le> 9223372036854775807 then of_int (decimalValue s)
            else 9223372036854775807)
      else 0)"

section \<open>toc.go: the patterns, matchToC, isToCLine, normalizeDotLeaders\<close>

text \<open>The four patterns end alike, in \<open>\s+(.+?)\s+(\d+)\s*$\<close>, with the groups \<open>k\<close> and \<open>k + 1\<close>.\<close>

definition tocTail :: "nat \<Rightarrow> rx" where
  "tocTail k =
     Cat (Plus (Chr isReSpace))
       (Cat (Group k (LazyPlus (Chr isAnyButNewline)))
          (Cat (Plus (Chr isReSpace))
             (Cat (Group (k + 1) (Plus (Chr isDigit)))
                (Cat (Star (Chr isReSpace)) Eol))))"

text \<open>\<open>tocNumRe = ^\s*(\d+(?:\.\d+)*)\s+(.+?)\s+(\d+)\s*$\<close>\<close>

definition tocNumRe :: rx where
  "tocNumRe =
     Cat Bol (Cat (Star (Chr isReSpace))
       (Cat (Group 1 (Cat (Plus (Chr isDigit)) (Star (Cat (Lit ''.'') (Plus (Chr isDigit))))))
          (tocTail 2)))"

text \<open>\<open>tocRomanRe = ^\s*([IVXLCDM]+)(?:\.([0-9]+))?\s+(.+?)\s+(\d+)\s*$\<close>\<close>

definition tocRomanRe :: rx where
  "tocRomanRe =
     Cat Bol (Cat (Star (Chr isReSpace))
       (Cat (Group 1 (Plus (Chr isRoman)))
          (Cat (Opt (Cat (Lit ''.'') (Group 2 (Plus (Chr isDigit)))))
             (tocTail 3))))"

text \<open>\<open>tocAlphaRe = ^\s*([A-Z](?:\.[0-9]+)*)\s+(.+?)\s+(\d+)\s*$\<close>\<close>

definition tocAlphaRe :: rx where
  "tocAlphaRe =
     Cat Bol (Cat (Star (Chr isReSpace))
       (Cat (Group 1 (Cat (Chr isUpper) (Star (Cat (Lit ''.'') (Plus (Chr isDigit))))))
          (tocTail 2)))"

text \<open>\<open>tocAppendixRe = ^\s*(?:Appendix|APPENDIX)\s+([A-Z](?:\.[0-9]+)*)\s+(.+?)\s+(\d+)\s*$\<close>\<close>

definition tocAppendixRe :: rx where
  "tocAppendixRe =
     Cat Bol (Cat (Star (Chr isReSpace))
       (Cat (Alt (Lit ''Appendix'') (Lit ''APPENDIX''))
          (Cat (Plus (Chr isReSpace))
             (Cat (Group 1 (Cat (Chr isUpper) (Star (Cat (Lit ''.'') (Plus (Chr isDigit))))))
                (tocTail 2)))))"

text \<open>
  matchToC: the patterns are tried in the order appendix, decimal, alphabetic, roman,
  and the first that matches gives the entry. \<open>len(m) == 4\<close> (5 for the roman pattern)
  holds exactly when the pattern matches. \<open>None\<close> is the result \<open>(tocEntry{}, false)\<close>.
\<close>

definition matchToC :: "string \<Rightarrow> tocEntry option" where
  "matchToC line =
     (case FindStringSubmatch tocAppendixRe 3 line of
        Some m \<Rightarrow>
          Some \<lparr>Number = m ! 1, Title = trimSpace (m ! 2), Page = atoi (m ! 3),
                Depth = of_nat (countDots (m ! 1)) + 1\<rparr>
      | None \<Rightarrow>
     (case FindStringSubmatch tocNumRe 3 line of
        Some m \<Rightarrow>
          Some \<lparr>Number = m ! 1, Title = trimSpace (m ! 2), Page = atoi (m ! 3),
                Depth = of_nat (countDots (m ! 1)) + 1\<rparr>
      | None \<Rightarrow>
     (case FindStringSubmatch tocAlphaRe 3 line of
        Some m \<Rightarrow>
          Some \<lparr>Number = m ! 1, Title = trimSpace (m ! 2), Page = atoi (m ! 3),
                Depth = of_nat (countDots (m ! 1)) + 1\<rparr>
      | None \<Rightarrow>
     (case FindStringSubmatch tocRomanRe 4 line of
        Some m \<Rightarrow>
          Some \<lparr>Number = (if m ! 2 \<noteq> [] then m ! 1 @ ''.'' @ m ! 2 else m ! 1),
                Title = trimSpace (m ! 3), Page = atoi (m ! 4),
                Depth = (if m ! 2 \<noteq> [] then 2 else 1)\<rparr>
      | None \<Rightarrow> None))))"

text \<open>
  normalizeDotLeaders. The literals of the source are, in UTF-8: the bullet U+2022
  (E2 80 A2), the middle dot U+00B7 (C2 B7), written twice, the ellipsis U+2026
  (E2 80 A6), written twice, a run of 106 dots, and \<open>" . . . "\<close>.
\<close>

definition bullet :: string where
  "bullet = [CHR 0xE2, CHR 0x80, CHR 0xA2]"

definition middleDot :: string where
  "middleDot = [CHR 0xC2, CHR 0xB7]"

definition ellipsis :: string where
  "ellipsis = [CHR 0xE2, CHR 0x80, CHR 0xA6]"

definition dotRun :: string where
  "dotRun = replicate 106 (CHR ''.'')"

definition normalizeDotLeaders :: "string \<Rightarrow> string" where
  "normalizeDotLeaders s0 =
     (let s = replaceAll bullet '' '' s0;
          s = replaceAll middleDot '' '' s;
          s = replaceAll ellipsis '' ... '' s;
          s = replaceAll middleDot '' '' s;
          s = replaceAll ellipsis '' ... '' s;
          s = replaceAll dotRun '' '' s;
          s = replaceAll '' . . . '' '' '' s
      in join (fields s) '' '')"

text \<open>
  The body of normalizeDotLeaders in two parts: its first five replacements, of the
  glyphs, and its last two, of the literal dots.
\<close>

definition glyphSteps :: "string \<Rightarrow> string" where
  "glyphSteps s =
     replaceAll ellipsis '' ... '' (replaceAll middleDot '' ''
       (replaceAll ellipsis '' ... '' (replaceAll middleDot '' '' (replaceAll bullet '' '' s))))"

definition dotLeaderSteps :: "string \<Rightarrow> string" where
  "dotLeaderSteps s = replaceAll '' . . . '' '' '' (replaceAll dotRun '' '' s)"

definition isToCLine :: "string \<Rightarrow> bool" where
  "isToCLine s0 =
     (let s = normalizeDotLeaders s0
      in MatchString tocAppendixRe s \<or> MatchString tocNumRe s
         \<or> MatchString tocAlphaRe s \<or> MatchString tocRomanRe s)"

section \<open>types.go: findToCBlock, findToCMultiPage, matchToCLines\<close>

text \<open>
  A letter of a pattern under the flag \<open>(?i)\<close> matches both of its cases and the
  characters that Unicode folds to it: for \<open>s\<close> the long s U+017F (bytes C5 BF), for
  \<open>k\<close> the Kelvin sign U+212A (bytes E2 84 AA). The argument is in lower case.
\<close>

fun LitFold :: "string \<Rightarrow> rx" where
  "LitFold [] = Eps"
| "LitFold (c # cs) =
     Cat (if c = CHR ''s'' then Alt (Chr (\<lambda>x. lowerAscii x = c)) (Lit [CHR 0xC5, CHR 0xBF])
          else if c = CHR ''k'' then
            Alt (Chr (\<lambda>x. lowerAscii x = c)) (Lit [CHR 0xE2, CHR 0x84, CHR 0xAA])
          else Chr (\<lambda>x. lowerAscii x = c))
         (LitFold cs)"

text \<open>\<open>headerRe = (?i)\btable of contents\b|^\s*contents\s*$\<close>\<close>

definition headerRe :: rx where
  "headerRe =
     Alt (Cat WordB (Cat (LitFold ''table of contents'') WordB))
         (Cat Bol (Cat (Star (Chr isReSpace))
            (Cat (LitFold ''contents'') (Cat (Star (Chr isReSpace)) Eol))))"

text \<open>\<open>pageNumRe = \b\d+\s*$\<close>\<close>

definition pageNumRe :: rx where
  "pageNumRe = Cat WordB (Cat (Plus (Chr isDigit)) (Cat (Star (Chr isReSpace)) Eol))"

text \<open>
  findToCBlock. The first loop goes over the first six pages and takes, from every
  page with the heading, the lines that end in a page number, as they are; when it
  takes none, the second loop takes the trimmed lines of the first six pages that
  isToCLine accepts.
\<close>

definition headerLines :: "string \<Rightarrow> string list" where
  "headerLines p =
     (if MatchString headerRe p \<or> contains (toLower p) ''table of contents''
      then filter (\<lambda>ln. MatchString pageNumRe (trimSpace ln)) (splitLines p)
      else [])"

definition tocLinesOf :: "string \<Rightarrow> string list" where
  "tocLinesOf p = filter isToCLine (map trimSpace (splitLines p))"

definition findToCBlock :: "string list \<Rightarrow> string list" where
  "findToCBlock pages =
     (let lines = concat (map headerLines (take 6 pages))
      in if lines = [] then concat (map tocLinesOf (take 6 pages)) else lines)"

definition matchToCLines :: "string \<Rightarrow> bool" where
  "matchToCLines p = list_ex (\<lambda>ln. isToCLine (trimSpace ln)) (splitLines p)"

text \<open>
  The loop that looks for the page that produced lines, \<open>for i := 0; i < len(pages) &&
  i < n; i++\<close> with its \<open>break\<close>: the index of the first page that satisfies the test,
  counted from the second argument.
\<close>

fun firstIndex :: "('a \<Rightarrow> bool) \<Rightarrow> nat \<Rightarrow> 'a list \<Rightarrow> nat option" where
  "firstIndex P i [] = None"
| "firstIndex P i (x # xs) = (if P x then Some i else firstIndex P (i + 1) xs)"

text \<open>
  The lines that the extension loop and the last loop of findToCMultiPage take from a
  page: the trimmed lines that are not empty and that isToCLine accepts.
\<close>

definition pageToCLines :: "string \<Rightarrow> string list" where
  "pageToCLines p =
     filter isToCLine (filter (\<lambda>ln. ln \<noteq> []) (map trimSpace (splitLines p)))"

text \<open>
  The extension loop, over the pages it may visit: a page that adds nothing ends it
  (\<open>if !added { break }\<close>).
\<close>

fun extendLoop :: "string list \<Rightarrow> string list \<Rightarrow> string list" where
  "extendLoop lines [] = lines"
| "extendLoop lines (p # ps) =
     (if pageToCLines p = [] then lines else extendLoop (lines @ pageToCLines p) ps)"

text \<open>
  findToCMultiPage. \<open>scanBudget n0\<close> is \<open>n\<close> after the first statement (\<open>if n <= 0 { n = 8
  }\<close>), a positive number that the loops compare with indices of \<open>pages\<close>.
  \<open>tocLastPage\<close> is \<open>lastPage\<close> after the loop that looks for the page which produced
  lines, 0 when the loop finds none. \<open>tocExtend\<close> is \<open>extend\<close>: \<open>n / 2\<close> is Go's division,
  which on a positive \<open>n\<close> is \<open>div\<close>, raised to 2. The extension loop visits the pages
  \<open>lastPage + 1\<close> to \<open>lastPage + extend\<close> that exist.
\<close>

definition scanBudget :: "goint \<Rightarrow> nat" where
  "scanBudget n0 = nat (sint (if n0 \<le>s 0 then 8 else n0))"

definition tocLastPage :: "string list \<Rightarrow> nat \<Rightarrow> nat" where
  "tocLastPage pages n =
     (case firstIndex (\<lambda>p. MatchString headerRe p \<or> matchToCLines p) 0 (take n pages) of
        Some i \<Rightarrow> i | None \<Rightarrow> 0)"

definition tocExtend :: "nat \<Rightarrow> nat" where
  "tocExtend n = (if n div 2 < 2 then 2 else n div 2)"

definition findToCMultiPage :: "string list \<Rightarrow> goint \<Rightarrow> string list" where
  "findToCMultiPage pages n0 =
     (let n = scanBudget n0;
          lines = findToCBlock pages
      in if lines \<noteq> [] then
           let lastPage = tocLastPage pages n;
               extend = tocExtend n
           in extendLoop lines (take extend (drop (lastPage + 1) pages))
         else concat (map pageToCLines (take n pages)))"

section \<open>util.go: transformTables\<close>

text \<open>
  \<open>FindStringIndex\<close>: the offset and the length of the leftmost match, the offset
  counted from the start of the second text; the first text is what stands before
  it, reversed.
\<close>

fun findIndex :: "rx \<Rightarrow> string \<Rightarrow> string \<Rightarrow> (nat \<times> nat) option" where
  "findIndex r pre s =
     (case run r (pre, s, []) of
        (pre', s', caps) # _ \<Rightarrow> Some (0, length s - length s')
      | [] \<Rightarrow> (case s of [] \<Rightarrow> None
               | c # cs \<Rightarrow> (case findIndex r (c # pre) cs of
                              None \<Rightarrow> None | Some (a, l) \<Rightarrow> Some (Suc a, l))))"

text \<open>
  \<open>re.Split(s, -1)\<close> for a pattern that matches no empty text: the pieces of the text
  between the matches, which are looked for one after the other, and the piece after
  the last match. (An empty match, which the pattern of the source never makes, ends
  the splitting here.)
\<close>

function reSplitFrom :: "rx \<Rightarrow> string \<Rightarrow> string \<Rightarrow> string list" where
  "reSplitFrom r pre s =
     (case findIndex r pre s of
        None \<Rightarrow> [s]
      | Some (a, l) \<Rightarrow>
          if l = 0 \<or> length s < a + l then [s]
          else take a s # reSplitFrom r (rev (take (a + l) s) @ pre) (drop (a + l) s))"
  by pat_completeness auto
termination
  by (relation "measure (\<lambda>(r, pre, s). length s)") auto

text \<open>\<open>twoPlusSpaces = \s{2,}\<close>\<close>

definition twoPlusSpaces :: rx where
  "twoPlusSpaces = Cat (Chr isReSpace) (Cat (Chr isReSpace) (Star (Chr isReSpace)))"

definition splitBy2Spaces :: "string \<Rightarrow> string list" where
  "splitBy2Spaces s = reSplitFrom twoPlusSpaces [] (trimSpace s)"

definition trimAll :: "string list \<Rightarrow> string list" where
  "trimAll a = map trimSpace a"

text \<open>
  The inner loop of transformTables, from line \<open>i\<close> on, with the column count and the
  block read so far; it returns the three when it stops. \<open>colsCount\<close> is set before
  the comparison of the widths, so it is returned set also when the comparison ends
  the loop.
\<close>

function scanBlock ::
  "string list \<Rightarrow> nat \<Rightarrow> nat \<Rightarrow> string list list \<Rightarrow> nat \<times> nat \<times> string list list" where
  "scanBlock lines i colsCount block =
     (if i < length lines then
        let ln = trimRightSpaces (lines ! i) in
        if ln = [] then (i, colsCount, block)
        else
          let parts = splitBy2Spaces ln in
          if length parts < 2 then (i, colsCount, block)
          else
            let colsCount1 = (if colsCount = 0 then length parts else colsCount) in
            if length parts \<noteq> colsCount1 then (i, colsCount1, block)
            else
              let block1 = block @ [parts] in
              if length block1 > 50 then (i, colsCount1, block1)
              else scanBlock lines (i + 1) colsCount1 block1
      else (i, colsCount, block))"
  by pat_completeness auto
termination
  by (relation "measure (\<lambda>(lines, i, colsCount, block). length lines - i)") auto

text \<open>A row of the Markdown table: \<open>"| " + strings.Join(cells, " | ") + " |"\<close>.\<close>

definition tableRow :: "string list \<Rightarrow> string" where
  "tableRow cells = ''| '' @ join cells '' | '' @ '' |''"

definition renderTable :: "string list list \<Rightarrow> string list" where
  "renderTable block =
     (let header = hd block
      in tableRow (trimAll header)
         # tableRow (map (\<lambda>_. ''---'') header)
         # map (\<lambda>row. tableRow (trimAll row)) (tl block))"

lemma scanBlock_index:
  "scanBlock lines i colsCount block = (i', colsCount', block')
     \<Longrightarrow> i \<le> i' \<and> length block' \<le> length block + (i' - i) + 1"
proof (induction lines i colsCount block rule: scanBlock.induct)
  case (1 lines i colsCount block)
  show ?case
  proof (cases "i < length lines \<and> trimRightSpaces (lines ! i) \<noteq> []
      \<and> \<not> length (splitBy2Spaces (trimRightSpaces (lines ! i))) < 2
      \<and> length (splitBy2Spaces (trimRightSpaces (lines ! i)))
          = (if colsCount = 0 then length (splitBy2Spaces (trimRightSpaces (lines ! i)))
             else colsCount)
      \<and> \<not> length (block @ [splitBy2Spaces (trimRightSpaces (lines ! i))]) > 50")
    case True
    then have "scanBlock lines i colsCount block =
        scanBlock lines (i + 1)
          (if colsCount = 0 then length (splitBy2Spaces (trimRightSpaces (lines ! i)))
           else colsCount)
          (block @ [splitBy2Spaces (trimRightSpaces (lines ! i))])"
      by (subst scanBlock.simps) (simp add: Let_def)
    with "1.prems" have "scanBlock lines (i + 1)
          (if colsCount = 0 then length (splitBy2Spaces (trimRightSpaces (lines ! i)))
           else colsCount)
          (block @ [splitBy2Spaces (trimRightSpaces (lines ! i))]) = (i', colsCount', block')"
      by simp
    from "1.IH" [OF _ refl _ refl _ refl _ refl _ this] True
    show ?thesis by auto
  next
    case False
    with "1.prems" show ?thesis
      by (subst (asm) scanBlock.simps) (auto simp: Let_def split: if_splits)
  qed
qed

text \<open>
  The outer loop of transformTables, from line \<open>i\<close> on, with the output lines so far.
  A block of two or more rows is rendered, and a blank line after it is taken over as
  an empty line; otherwise the lines from \<open>start\<close> to \<open>i\<close> that exist are passed
  through, and the loop goes on after line \<open>i\<close>.
\<close>

function transformLoop :: "string list \<Rightarrow> nat \<Rightarrow> string list \<Rightarrow> string list" where
  "transformLoop lines i0 out =
     (if i0 < length lines then
        (case scanBlock lines i0 0 [] of
           (i, colsCount, block) \<Rightarrow>
             if length block \<ge> 2 \<and> colsCount \<ge> 2 then
               (if i < length lines \<and> trimSpace (lines ! i) = []
                then transformLoop lines (i + 1) (out @ renderTable block @ [[]])
                else transformLoop lines i (out @ renderTable block))
             else
               transformLoop lines (i + 1)
                 (out @ map (\<lambda>j. lines ! j) [i0..<min (i + 1) (length lines)]))
      else out)"
  by pat_completeness auto
termination
proof (relation "measure (\<lambda>(lines, i, out). length lines - i)")
  show "wf (measure (\<lambda>(lines, i, out). length lines - i))" by simp
next
  fix lines :: "string list" and i0 :: nat and out :: "string list" and i :: nat
    and y :: "nat \<times> string list list" and colsCount :: nat and block :: "string list list"
  assume a: "i0 < length lines" "(i, y) = scanBlock lines i0 0 []" "(colsCount, block) = y"
    and b: "2 \<le> length block \<and> 2 \<le> colsCount"
  from a have "scanBlock lines i0 0 [] = (i, colsCount, block)" by simp
  from scanBlock_index [OF this] a b
  show "((lines, i + 1, out @ renderTable block @ [[]]), lines, i0, out)
        \<in> measure (\<lambda>(lines, i, out). length lines - i)"
    by auto
next
  fix lines :: "string list" and i0 :: nat and out :: "string list" and i :: nat
    and y :: "nat \<times> string list list" and colsCount :: nat and block :: "string list list"
  assume a: "i0 < length lines" "(i, y) = scanBlock lines i0 0 []" "(colsCount, block) = y"
    and b: "2 \<le> length block \<and> 2 \<le> colsCount"
  from a have "scanBlock lines i0 0 [] = (i, colsCount, block)" by simp
  from scanBlock_index [OF this] a b
  show "((lines, i, out @ renderTable block), lines, i0, out)
        \<in> measure (\<lambda>(lines, i, out). length lines - i)"
    by auto
next
  fix lines :: "string list" and i0 :: nat and out :: "string list" and i :: nat
    and y :: "nat \<times> string list list" and colsCount :: nat and block :: "string list list"
  assume a: "i0 < length lines" "(i, y) = scanBlock lines i0 0 []" "(colsCount, block) = y"
  from a have "scanBlock lines i0 0 [] = (i, colsCount, block)" by simp
  from scanBlock_index [OF this] a
  show "((lines, i + 1, out @ map ((!) lines) [i0..<min (i + 1) (length lines)]),
         lines, i0, out) \<in> measure (\<lambda>(lines, i, out). length lines - i)"
    by auto
qed

definition transformTables :: "string \<Rightarrow> string" where
  "transformTables text = join (transformLoop (splitLines text) 0 []) [CHR 0x0A]"

section \<open>Notions of the specification\<close>

text \<open>A list of entries ordered ascending by page.\<close>

definition pageOrdered :: "tocEntry list \<Rightarrow> bool" where
  "pageOrdered entries = sorted_wrt (\<lambda>a b. Page a \<le>s Page b) entries"

text \<open>
  The section that the specification gives for the entry at index \<open>i\<close>: its end page
  is \<open>page(entry[i+1]) - 1\<close> if a following entry exists and that value is at least
  the entry's own page, and its own page otherwise.
\<close>

definition sectionAt :: "tocEntry list \<Rightarrow> nat \<Rightarrow> Section" where
  "sectionAt entries i =
     (let e = entries ! i in
      Section (Number e) (Title e) (Page e)
        (if i + 1 < length entries \<and> Page e \<le>s Page (entries ! (i + 1)) - 1
         then Page (entries ! (i + 1)) - 1 else Page e)
        (Depth e) (slugify (Number e @ ''-'' @ Title e)) [])"

text \<open>
  The depth-first flattening of a tree of sections: each node, followed by its
  children, recursively, in order.
\<close>

fun flattenDepthFirst :: "Section \<Rightarrow> Section list" where
  "flattenDepthFirst (Section n t a b d g cs) =
     Section n t a b d g cs # concat (map flattenDepthFirst cs)"

definition flattenForest :: "Section list \<Rightarrow> Section list" where
  "flattenForest roots = concat (map flattenDepthFirst roots)"

text \<open>
  A text without white space: no white-space character starts at any of its
  positions.
\<close>

fun noSpaceIn :: "string \<Rightarrow> bool" where
  "noSpaceIn [] = True"
| "noSpaceIn (c # cs) = (spaceWidth (c # cs) = 0 \<and> noSpaceIn cs)"

text \<open>
  The replacement of the glyphs as the specification words it, in one pass from left
  to right: each bullet point and each middle dot gives a single space, each
  horizontal-ellipsis character gives \<open>" ... "\<close>, and every other byte stays.
\<close>

function expandGlyphs :: "string \<Rightarrow> string" where
  "expandGlyphs [] = []"
| "expandGlyphs (c # cs) =
     (if prefix bullet (c # cs) then '' '' @ expandGlyphs (drop 2 cs)
      else if prefix middleDot (c # cs) then '' '' @ expandGlyphs (drop 1 cs)
      else if prefix ellipsis (c # cs) then '' ... '' @ expandGlyphs (drop 2 cs)
      else c # expandGlyphs cs)"
  by pat_completeness auto
termination
  by (relation "measure length") auto

section \<open>Example inputs\<close>

definition ex_safety :: tocEntry where
  "ex_safety = \<lparr>Number = ''1'', Title = ''Safety'', Page = 4, Depth = 1\<rparr>"

definition ex_rules :: tocEntry where
  "ex_rules = \<lparr>Number = ''1.1'', Title = ''General rules'', Page = 4, Depth = 2\<rparr>"

definition ex_rules6 :: tocEntry where
  "ex_rules6 = \<lparr>Number = ''1.1'', Title = ''General rules'', Page = 6, Depth = 2\<rparr>"

definition ex_install :: tocEntry where
  "ex_install = \<lparr>Number = ''2'', Title = ''Installation'', Page = 9, Depth = 1\<rparr>"

definition ex_sec1 :: Section where
  "ex_sec1 = Section ''1'' ''Safety'' 4 4 1 ''1-safety'' []"
definition ex_sec11 :: Section where
  "ex_sec11 = Section ''1.1'' ''General rules'' 5 5 2 ''1-1-general-rules'' []"
definition ex_sec111 :: Section where
  "ex_sec111 = Section ''1.1.1'' ''Gloves'' 6 6 3 ''1-1-1-gloves'' []"

definition ex_tocPage :: string where
  "ex_tocPage = ''Table of Contents'' @ [CHR 0x0A] @ ''1 Intro 3''"

definition ex_morePage :: string where
  "ex_morePage = ''1.1 More 4''"

definition ex_prosePage :: string where
  "ex_prosePage = ''just prose here''"

definition ex_lateTocPage :: string where
  "ex_lateTocPage = ''Table of Contents'' @ [CHR 0x0A] @ ''2 Next 9''"

definition ex_glyphLine :: string where
  "ex_glyphLine = ''1 Intro '' @ bullet @ '' '' @ middleDot @ ellipsis @ '' 5''"

section \<open>Notions for the properties of the matcher\<close>

text \<open>
  \<open>failsAt P b\<close>: the expression \<open>b\<close> has no match that starts at a byte of the class \<open>P\<close>.
\<close>

definition failsAt :: "(char \<Rightarrow> bool) \<Rightarrow> rx \<Rightarrow> bool" where
  "failsAt P b \<longleftrightarrow> (\<forall>pre x xs caps. P x \<longrightarrow> run b (pre, x # xs, caps) = [])"

text \<open>The end \<open>\s+(\d+)\s*$\<close> of the four patterns, with the group \<open>k\<close>.\<close>

definition tocEnd :: "nat \<Rightarrow> rx" where
  "tocEnd k =
     Cat (Plus (Chr isReSpace))
       (Cat (Group k (Plus (Chr isDigit)))
          (Cat (Star (Chr isReSpace)) Eol))"

text \<open>
  One dotted group \<open>\.[0-9]+\<close> of a number token, and the bytes that the dotted groups
  are made of.
\<close>

definition dotDigits :: rx where
  "dotDigits = Cat (Lit ''.'') (Plus (Chr isDigit))"

definition numChar :: "char \<Rightarrow> bool" where
  "numChar c \<longleftrightarrow> c = CHR ''.'' \<or> isDigit c"

text \<open>A decimal entry whose leader is a run of 20 dots, printed without spaces.\<close>

definition ex_dotLine :: string where
  "ex_dotLine = ''1.2 Overview'' @ replicate 20 (CHR ''.'') @ ''7''"

section \<open>Properties of buildSections\<close>

text \<open>
  The loop of buildSections builds, for the indices from \<open>i\<close> on, the sections of the
  entries that are not deeper than \<open>maxDepth\<close>, each with the end page read from
  the next entry of the input.
\<close>

lemma buildSections_loop_eq:
  "rest = drop i entries \<Longrightarrow>
   buildSections_loop entries maxDepth i rest sections =
     sections @ map (sectionAt entries)
       (filter (\<lambda>j. Depth (entries ! j) \<le>s maxDepth) [i..<length entries])"
proof (induction rest arbitrary: i sections)
  case Nil
  then have "length entries \<le> i" by simp
  then show ?case by simp
next
  case (Cons e rest)
  from Cons.prems have i: "i < length entries"
    by (metis drop_eq_Nil list.distinct(1) not_le)
  from Cons.prems i have e: "e = entries ! i" and rest: "rest = drop (Suc i) entries"
    by (metis Cons_nth_drop_Suc list.inject)+
  have upt: "[i..<length entries] = i # [Suc i..<length entries]"
    using i by (simp add: upt_conv_Cons)
  have guard: "(int i < int (length entries) - 1) = (i + 1 < length entries)"
    by auto
  show ?case
    using Cons.IH [OF rest]
    by (auto simp add: upt e [symmetric] sectionAt_def Let_def guard word_sle_eq word_sless_alt
        simp del: upt.simps)
qed

lemma buildSections_eq:
  "buildSections entries maxDepth =
     map (sectionAt entries)
       (filter (\<lambda>j. Depth (entries ! j) \<le>s (if maxDepth \<le>s 0 then 10 else maxDepth))
          [0..<length entries])"
  by (simp add: buildSections_def buildSections_loop_eq Let_def)

lemma sectionAt_start_le_end: "sStart (sectionAt entries i) \<le>s sEnd (sectionAt entries i)"
  by (simp add: sectionAt_def Let_def)

lemma ex_pageOrdered: "pageOrdered [ex_safety, ex_rules, ex_install]"
  by (simp add: pageOrdered_def ex_safety_def ex_rules_def ex_install_def word_sle_eq)

text \<open>
  Subtracting one from a page that is not the least integer does not wrap around.
\<close>

lemma sint_pred:
  fixes x :: goint
  assumes "a <s x"
  shows "sint (x - 1) = sint x - 1"
proof -
  have lo: "- (2 ^ 63) \<le> sint a" using sint_ge [of a] by simp
  have hi: "sint x < 2 ^ 63" using sint_lt [of x] by simp
  from assms have "sint a < sint x" by (simp add: word_sless_alt)
  with lo hi have "- (2 ^ 63) \<le> sint x - 1" "sint x - 1 < 2 ^ 63" by linarith+
  then show ?thesis
    by (simp add: sint_word_diff signed_take_bit_int_eq_self)
qed

text \<open>
  C4: for every entry list sorted ascending by page and every \<open>maxDepth \<ge> 1\<close>,
  buildSections gives each retained entry (depth at most \<open>maxDepth\<close>) at input index
  \<open>i\<close> the end page \<open>page(entry[i+1]) - 1\<close> when a following input entry exists and
  that value is at least the entry's own page, and the entry's own page otherwise; so
  the start page is at most the end page in every section of the output. The
  subtraction and the comparisons are Go's, on 64-bit integers.
\<close>

theorem buildSections_endPage:
  assumes "pageOrdered entries" and "1 \<le>s maxDepth"
  shows "buildSections entries maxDepth =
           map (sectionAt entries)
             (filter (\<lambda>i. Depth (entries ! i) \<le>s maxDepth) [0..<length entries])
         \<and> (\<forall>s \<in> set (buildSections entries maxDepth). sStart s \<le>s sEnd s)"
proof -
  from assms(2) have "\<not> maxDepth \<le>s 0"
    by (simp add: word_sle_eq)
  then have eq: "buildSections entries maxDepth =
           map (sectionAt entries)
             (filter (\<lambda>i. Depth (entries ! i) \<le>s maxDepth) [0..<length entries])"
    by (simp add: buildSections_eq)
  show ?thesis
    unfolding eq by (auto simp: sectionAt_start_le_end)
qed

text \<open>The entries of pages 4, 4 and 9 with \<open>maxDepth = 1\<close>: the entry of depth 2 is dropped.\<close>

theorem buildSections_endPage_witness:
  "pageOrdered [ex_safety, ex_rules, ex_install] \<and> (1 :: goint) \<le>s 1
   \<and> buildSections [ex_safety, ex_rules, ex_install] 1 =
       [Section ''1'' ''Safety'' 4 4 1 ''1-safety'' [],
        Section ''2'' ''Installation'' 9 9 1 ''2-installation'' []]
   \<and> list_all (\<lambda>s. sStart s \<le>s sEnd s) (buildSections [ex_safety, ex_rules, ex_install] 1)"
proof -
  have one: "(1 :: goint) \<le>s 1" by simp
  have "buildSections [ex_safety, ex_rules, ex_install] 1 =
       [Section ''1'' ''Safety'' 4 4 1 ''1-safety'' [],
        Section ''2'' ''Installation'' 9 9 1 ''2-installation'' []]"
    by code_simp
  moreover have "list_all (\<lambda>s. sStart s \<le>s sEnd s) (buildSections [ex_safety, ex_rules, ex_install] 1)"
    using buildSections_endPage [OF ex_pageOrdered one, THEN conjunct2]
    by (simp only: list_all_iff)
  ultimately show ?thesis
    using ex_pageOrdered one by (intro conjI)
qed

text \<open>
  C10: with \<open>maxDepth \<le> 0\<close> buildSections behaves as with \<open>maxDepth = 10\<close>: the
  entries of depth at most 10 are retained, in order, and the deeper ones dropped; an
  entry list with an entry of depth at most 10 never gives an empty section list.
\<close>

theorem buildSections_maxDepth_default:
  assumes "maxDepth \<le>s 0"
  shows "buildSections entries maxDepth = buildSections entries 10
         \<and> map (\<lambda>s. (sNumber s, sTitle s, sStart s, sDepth s)) (buildSections entries maxDepth)
             = map (\<lambda>e. (Number e, Title e, Page e, Depth e))
                 (filter (\<lambda>e. Depth e \<le>s 10) entries)
         \<and> ((\<exists>e \<in> set entries. Depth e \<le>s 10) \<longrightarrow> buildSections entries maxDepth \<noteq> [])"
proof -
  have ten: "\<not> (10 :: goint) \<le>s 0" by (simp add: word_sle_eq)
  have eq: "buildSections entries maxDepth = buildSections entries 10"
    using assms ten by (simp add: buildSections_eq)
  have idx: "map (\<lambda>j. entries ! j) (filter (\<lambda>j. P (entries ! j)) [0..<length entries])
             = filter P entries" for P
  proof -
    have "filter P entries = filter P (map (\<lambda>j. entries ! j) [0..<length entries])"
      by (simp only: map_nth)
    also have "\<dots> = map (\<lambda>j. entries ! j) (filter (P \<circ> (\<lambda>j. entries ! j)) [0..<length entries])"
      by (simp only: filter_map)
    finally show ?thesis by (simp add: comp_def)
  qed
  have kept: "map (\<lambda>s. (sNumber s, sTitle s, sStart s, sDepth s)) (buildSections entries 10)
             = map (\<lambda>e. (Number e, Title e, Page e, Depth e))
                 (filter (\<lambda>e. Depth e \<le>s 10) entries)"
    unfolding idx [symmetric] using ten
    by (simp add: buildSections_eq sectionAt_def Let_def comp_def)
  have nonempty: "buildSections entries 10 \<noteq> []" if "\<exists>e \<in> set entries. Depth e \<le>s 10"
  proof -
    from that have "filter (\<lambda>e. Depth e \<le>s 10) entries \<noteq> []"
      by (simp add: filter_empty_conv)
    with kept show ?thesis by auto
  qed
  show ?thesis using eq kept nonempty by simp
qed

theorem buildSections_maxDepth_default_witness:
  "(0 :: goint) \<le>s 0
   \<and> buildSections [ex_safety, ex_rules, ex_install] 0
       = buildSections [ex_safety, ex_rules, ex_install] 10
   \<and> (\<exists>e \<in> set [ex_safety, ex_rules, ex_install]. Depth e \<le>s 10)
   \<and> buildSections [ex_safety, ex_rules, ex_install] 0 \<noteq> []"
proof -
  have zero: "(0 :: goint) \<le>s 0" by simp
  have ex: "\<exists>e \<in> set [ex_safety, ex_rules, ex_install]. Depth e \<le>s 10"
    by (simp add: ex_safety_def word_sle_eq)
  from buildSections_maxDepth_default [OF zero, of "[ex_safety, ex_rules, ex_install]"] ex zero
  show ?thesis by blast
qed

text \<open>
  C3 as stated fails: two entries on the same page (pages 4 and 4) give the first
  section the end page 4, not \<open>4 - 1\<close>; an entry dropped by the depth cutoff still ends
  the section before it (pages 4, 6, 9 with the middle entry dropped: the first section
  ends at 5, not at \<open>9 - 1\<close>), also when that section is the last of the output.
\<close>

theorem buildSections_adjacent_counterexample:
  "pageOrdered [ex_safety, ex_rules]
   \<and> sEnd (buildSections [ex_safety, ex_rules] 10 ! 0)
       \<noteq> sStart (buildSections [ex_safety, ex_rules] 10 ! 1) - 1
   \<and> pageOrdered [ex_safety, ex_rules6, ex_install]
   \<and> length (buildSections [ex_safety, ex_rules6, ex_install] 1) = 2
   \<and> sEnd (buildSections [ex_safety, ex_rules6, ex_install] 1 ! 0)
       \<noteq> sStart (buildSections [ex_safety, ex_rules6, ex_install] 1 ! 1) - 1
   \<and> pageOrdered [ex_safety, ex_rules6]
   \<and> length (buildSections [ex_safety, ex_rules6] 1) = 1
   \<and> sEnd (last (buildSections [ex_safety, ex_rules6] 1))
       \<noteq> sStart (last (buildSections [ex_safety, ex_rules6] 1))"
proof -
  have "buildSections [ex_safety, ex_rules] 10 =
      [Section ''1'' ''Safety'' 4 4 1 ''1-safety'' [],
       Section ''1.1'' ''General rules'' 4 4 2 ''1-1-general-rules'' []]"
    by code_simp
  moreover have "buildSections [ex_safety, ex_rules6, ex_install] 1 =
      [Section ''1'' ''Safety'' 4 5 1 ''1-safety'' [],
       Section ''2'' ''Installation'' 9 9 1 ''2-installation'' []]"
    by code_simp
  moreover have "buildSections [ex_safety, ex_rules6] 1 =
      [Section ''1'' ''Safety'' 4 5 1 ''1-safety'' []]"
    by code_simp
  moreover have "pageOrdered [ex_safety, ex_rules]" "pageOrdered [ex_safety, ex_rules6, ex_install]"
     "pageOrdered [ex_safety, ex_rules6]"
    by (simp_all add: pageOrdered_def ex_safety_def ex_rules_def ex_rules6_def ex_install_def word_sle_eq)
  ultimately show ?thesis by simp
qed

text \<open>
  C3, amended: for a list of entries with non-negative pages, ordered ascending by
  page, none of them deeper than the maximum depth in force (so that none is dropped),
  the output has one section per entry; every section but the last has the end page
  \<open>startPage(i+1) - 1\<close> when the next section starts on a later page, and its own start
  page when the next section starts on the same page; the last section has its start
  page as end page.
\<close>

theorem buildSections_adjacent:
  assumes "pageOrdered entries"
    and "\<forall>e \<in> set entries. 0 \<le>s Page e"
    and "\<forall>e \<in> set entries. Depth e \<le>s (if maxDepth \<le>s 0 then 10 else maxDepth)"
  shows "length (buildSections entries maxDepth) = length entries
     \<and> (\<forall>i. i + 1 < length entries \<longrightarrow>
          sEnd (buildSections entries maxDepth ! i)
            = (if sStart (buildSections entries maxDepth ! i)
                   <s sStart (buildSections entries maxDepth ! (i + 1))
               then sStart (buildSections entries maxDepth ! (i + 1)) - 1
               else sStart (buildSections entries maxDepth ! i)))
     \<and> (entries \<noteq> [] \<longrightarrow>
          sEnd (last (buildSections entries maxDepth))
            = sStart (last (buildSections entries maxDepth)))"
proof -
  let ?out = "buildSections entries maxDepth"
  from assms(3) have all: "filter (\<lambda>j. Depth (entries ! j) \<le>s (if maxDepth \<le>s 0 then 10 else maxDepth))
      [0..<length entries] = [0..<length entries]"
    by (simp add: filter_id_conv)
  have out: "?out = map (sectionAt entries) [0..<length entries]"
    unfolding buildSections_eq all ..
  then have len: "length ?out = length entries" by simp
  have step: "sEnd (?out ! i) = (if sStart (?out ! i) <s sStart (?out ! (i + 1))
               then sStart (?out ! (i + 1)) - 1 else sStart (?out ! i))"
    if i: "i + 1 < length entries" for i
  proof -
    let ?p = "Page (entries ! i)" and ?q = "Page (entries ! (i + 1))"
    from i have nth: "?out ! i = sectionAt entries i" "?out ! Suc i = sectionAt entries (Suc i)"
      by (simp_all add: out)
    from assms(1) i have le: "?p \<le>s ?q"
      by (simp add: pageOrdered_def sorted_wrt_iff_nth_less)
    from assms(2) i have nonneg: "0 \<le>s ?p" by simp
    show ?thesis
    proof (cases "?p <s ?q")
      case True
      then have "sint (?q - 1) = sint ?q - 1" by (rule sint_pred)
      with True have "?p \<le>s ?q - 1" by (simp add: word_sle_eq word_sless_alt)
      with True i show ?thesis by (simp add: nth sectionAt_def Let_def)
    next
      case False
      with le have "sint ?q = sint ?p"
        by (simp add: word_sle_eq word_sless_alt)
      then have eq: "?q = ?p"
        by (rule signed_word_eqI)
      have "(-1 :: goint) <s ?p" using nonneg by (simp add: word_sle_eq word_sless_alt)
      then have "sint (?p - 1) = sint ?p - 1" by (rule sint_pred)
      then have "\<not> ?p \<le>s ?p - 1" by (simp add: word_sle_eq)
      with False i eq show ?thesis by (simp add: nth sectionAt_def Let_def)
    qed
  qed
  have fin: "sEnd (last ?out) = sStart (last ?out)" if "entries \<noteq> []"
  proof -
    from that have "last ?out = sectionAt entries (length entries - 1)"
      by (simp add: out last_map)
    with that show ?thesis by (simp add: sectionAt_def Let_def)
  qed
  from len step fin show ?thesis by blast
qed

theorem buildSections_adjacent_witness:
  "pageOrdered [ex_safety, ex_rules, ex_install]
   \<and> list_all (\<lambda>e. 0 \<le>s Page e) [ex_safety, ex_rules, ex_install]
   \<and> list_all (\<lambda>e. Depth e \<le>s 10) [ex_safety, ex_rules, ex_install]
   \<and> length (buildSections [ex_safety, ex_rules, ex_install] 10) = 3
   \<and> sEnd (buildSections [ex_safety, ex_rules, ex_install] 10 ! 0)
       = sStart (buildSections [ex_safety, ex_rules, ex_install] 10 ! 0)
   \<and> sEnd (buildSections [ex_safety, ex_rules, ex_install] 10 ! 1)
       = sStart (buildSections [ex_safety, ex_rules, ex_install] 10 ! 2) - 1
   \<and> sEnd (last (buildSections [ex_safety, ex_rules, ex_install] 10))
       = sStart (last (buildSections [ex_safety, ex_rules, ex_install] 10))"
proof -
  let ?L = "[ex_safety, ex_rules, ex_install]"
  have h1: "pageOrdered ?L" by (rule ex_pageOrdered)
  have h2: "\<forall>e \<in> set ?L. 0 \<le>s Page e"
    by (simp add: ex_safety_def ex_rules_def ex_install_def word_sle_eq)
  have h3: "\<forall>e \<in> set ?L. Depth e \<le>s (if (10 :: goint) \<le>s 0 then 10 else 10)"
    by (simp add: ex_safety_def ex_rules_def ex_install_def word_sle_eq)
  have h2': "list_all (\<lambda>e. 0 \<le>s Page e) ?L"
    using h2 by (simp only: list_all_iff)
  have h3': "list_all (\<lambda>e. Depth e \<le>s 10) ?L"
    using h3 by (simp add: list_all_iff)
  have val: "buildSections ?L 10 =
      [Section ''1'' ''Safety'' 4 4 1 ''1-safety'' [],
       Section ''1.1'' ''General rules'' 4 8 2 ''1-1-general-rules'' [],
       Section ''2'' ''Installation'' 9 9 1 ''2-installation'' []]"
    by code_simp
  note c = buildSections_adjacent [OF h1 h2 h3]
  from c have len: "length (buildSections ?L 10) = 3" by simp
  from c have fin: "sEnd (last (buildSections ?L 10)) = sStart (last (buildSections ?L 10))"
    by blast
  have e0: "sEnd (buildSections ?L 10 ! 0) = sStart (buildSections ?L 10 ! 0)"
    unfolding val by simp
  have e1: "sEnd (buildSections ?L 10 ! 1) = sStart (buildSections ?L 10 ! 2) - 1"
    unfolding val by simp
  show ?thesis
    using h1 h2' h3' len e0 e1 fin by (intro conjI)
qed

section \<open>Hierarchy assembly on a chain of three levels\<close>

text \<open>
  C1: on the flat list of the sections 1, 1.1 and 1.1.1 (depths 1, 2, 3), buildHierarchy
  returns a forest whose depth-first flattening holds the two sections 1 and 1.1 only:
  the input has three sections, and 1.1.1 is lost. Section 1.1 was copied into the
  children of section 1 in its round of the loop, before section 1.1.1 was attached to
  \<open>nodes[1]\<close>, and the copy is never refreshed.
\<close>

theorem buildHierarchy_flatten_loses_section:
  "length [ex_sec1, ex_sec11, ex_sec111] = 3
   \<and> map_option (map sNumber \<circ> flattenForest) (buildHierarchy [ex_sec1, ex_sec11, ex_sec111])
       = Some [''1'', ''1.1'']"
  by code_simp

text \<open>
  C2: on the same list the returned tree is section 1 with the single child 1.1, and
  that child has no children: section 1.1.1, whose nearest preceding section of lower
  depth with a matching number prefix is 1.1, is not a child of 1.1 in the returned
  tree.
\<close>

theorem buildHierarchy_grandchild_not_attached:
  "buildHierarchy [ex_sec1, ex_sec11, ex_sec111]
     = Some [Section ''1'' ''Safety'' 4 4 1 ''1-safety''
              [Section ''1.1'' ''General rules'' 5 5 2 ''1-1-general-rules'' []]]"
  by code_simp

section \<open>Properties of findToCMultiPage\<close>

text \<open>
  The extension loop adds the lines of the pages it is given up to the first page
  that has none, in order.
\<close>

lemma extendLoop_eq:
  "extendLoop lines ps =
     lines @ concat (map pageToCLines (takeWhile (\<lambda>p. pageToCLines p \<noteq> []) ps))"
  by (induction ps arbitrary: lines) auto

lemma takeWhile_take_stop:
  assumes "j < length xs" and "j < e" and "\<not> P (xs ! j)"
  shows "takeWhile P (take e xs) = takeWhile P (take j xs)"
proof -
  from assms(1,2) have "j < length (take e xs)" by simp
  then have "take e xs = take j (take e xs) @ take e xs ! j # drop (Suc j) (take e xs)"
    by (rule id_take_nth_drop)
  with assms(2) have "take e xs = take j xs @ xs ! j # drop (Suc j) (take e xs)"
    by (simp add: min.absorb1)
  then have "takeWhile P (take e xs) = takeWhile P (take j xs @ xs ! j # drop (Suc j) (take e xs))"
    by simp
  also have "\<dots> = takeWhile P (take j xs)"
    using assms(3) by (rule takeWhile_tail)
  finally show ?thesis .
qed

text \<open>
  C8 as stated fails: with the heading on pages 0 and 2 and no ToC line on page 1, the
  loop that looks for the first ToC page gives \<open>lastPage = 0\<close>, page 1 lies in the range
  of the extension and contributes no line, and the returned list still holds the line
  \<open>2 Next 9\<close>, which stands on page 2 only: the simple detector took it.
\<close>

theorem findToCMultiPage_later_page_counterexample:
  "findToCBlock [ex_tocPage, ex_prosePage, ex_lateTocPage] \<noteq> []
   \<and> tocLastPage [ex_tocPage, ex_prosePage, ex_lateTocPage] (scanBudget 8) = 0
   \<and> tocExtend (scanBudget 8) = 4
   \<and> pageToCLines ([ex_tocPage, ex_prosePage, ex_lateTocPage] ! 1) = []
   \<and> findToCMultiPage [ex_tocPage, ex_prosePage, ex_lateTocPage] 8 = [''1 Intro 3'', ''2 Next 9'']
   \<and> ''2 Next 9'' \<in> set (splitLines ([ex_tocPage, ex_prosePage, ex_lateTocPage] ! 2))
   \<and> ''2 Next 9'' \<notin> set (splitLines ([ex_tocPage, ex_prosePage, ex_lateTocPage] ! 0))
   \<and> ''2 Next 9'' \<notin> set (splitLines ([ex_tocPage, ex_prosePage, ex_lateTocPage] ! 1))"
  by code_simp

text \<open>
  C8, amended: when the simple detector findToCBlock returns lines, findToCMultiPage
  returns them followed by the lines it collects from the pages \<open>i0 + 1\<close> to
  \<open>i0 + max(2, n/2)\<close>, in page order, up to the first page of that range that
  contributes no ToC line; here \<open>n\<close> is the scan budget (8 when the budget given is not
  positive) and \<open>i0\<close> is the first of the first \<open>n\<close> pages that matches the heading
  pattern or holds a ToC line (0 when there is none). So if a page \<open>k\<close> of the range
  contributes no line, the lines added to the detector's come from the pages before \<open>k\<close>
  only. The detector's own lines may come from any of the first six pages.
\<close>

theorem findToCMultiPage_extension:
  assumes "findToCBlock pages \<noteq> []"
  shows "tocExtend (scanBudget n) = max 2 (scanBudget n div 2)
     \<and> findToCMultiPage pages n =
         findToCBlock pages
         @ concat (map pageToCLines
             (takeWhile (\<lambda>p. pageToCLines p \<noteq> [])
                (take (tocExtend (scanBudget n))
                   (drop (tocLastPage pages (scanBudget n) + 1) pages))))
     \<and> (\<forall>k. tocLastPage pages (scanBudget n) < k
            \<and> k \<le> tocLastPage pages (scanBudget n) + tocExtend (scanBudget n)
            \<and> k < length pages \<and> pageToCLines (pages ! k) = []
          \<longrightarrow> findToCMultiPage pages n =
                findToCBlock pages
                @ concat (map pageToCLines
                    (takeWhile (\<lambda>p. pageToCLines p \<noteq> [])
                       (take (k - (tocLastPage pages (scanBudget n) + 1))
                          (drop (tocLastPage pages (scanBudget n) + 1) pages)))))"
proof -
  let ?l = "tocLastPage pages (scanBudget n)" and ?e = "tocExtend (scanBudget n)"
  let ?rest = "drop (?l + 1) pages"
  have ext: "?e = max 2 (scanBudget n div 2)"
    by (simp add: tocExtend_def max_def)
  have eq: "findToCMultiPage pages n =
      findToCBlock pages
      @ concat (map pageToCLines (takeWhile (\<lambda>p. pageToCLines p \<noteq> []) (take ?e ?rest)))"
    using assms by (simp add: findToCMultiPage_def Let_def extendLoop_eq)
  have stop: "findToCMultiPage pages n =
      findToCBlock pages
      @ concat (map pageToCLines
          (takeWhile (\<lambda>p. pageToCLines p \<noteq> []) (take (k - (?l + 1)) ?rest)))"
    if k: "?l < k" "k \<le> ?l + ?e" "k < length pages" "pageToCLines (pages ! k) = []" for k
  proof -
    let ?j = "k - (?l + 1)"
    from k have j: "?j < length ?rest" "?j < ?e" by auto
    from k have "?rest ! ?j = pages ! k" by simp
    with k have "\<not> (\<lambda>p. pageToCLines p \<noteq> []) (?rest ! ?j)" by simp
    then have "takeWhile (\<lambda>p. pageToCLines p \<noteq> []) (take ?e ?rest)
        = takeWhile (\<lambda>p. pageToCLines p \<noteq> []) (take ?j ?rest)"
      using j by (intro takeWhile_take_stop)
    with eq show ?thesis by simp
  qed
  from ext eq stop show ?thesis by blast
qed

text \<open>
  Four pages: the heading page, a page with a ToC line, a page of prose, a later
  heading page. \<open>lastPage\<close> is 0, the extension takes the line of page 1 and stops at
  page 2.
\<close>

theorem findToCMultiPage_extension_witness:
  "findToCBlock [ex_tocPage, ex_morePage, ex_prosePage, ex_lateTocPage] \<noteq> []
   \<and> tocLastPage [ex_tocPage, ex_morePage, ex_prosePage, ex_lateTocPage] (scanBudget 8) = 0
   \<and> pageToCLines ([ex_tocPage, ex_morePage, ex_prosePage, ex_lateTocPage] ! 2) = []
   \<and> findToCMultiPage [ex_tocPage, ex_morePage, ex_prosePage, ex_lateTocPage] 8 =
       findToCBlock [ex_tocPage, ex_morePage, ex_prosePage, ex_lateTocPage]
       @ concat (map pageToCLines
           (takeWhile (\<lambda>p. pageToCLines p \<noteq> [])
              (take (2 - (0 + 1)) (drop (0 + 1) [ex_tocPage, ex_morePage, ex_prosePage, ex_lateTocPage]))))
   \<and> findToCMultiPage [ex_tocPage, ex_morePage, ex_prosePage, ex_lateTocPage] 8
       = [''1 Intro 3'', ''2 Next 9'', ''1.1 More 4'']"
proof -
  let ?P = "[ex_tocPage, ex_morePage, ex_prosePage, ex_lateTocPage]"
  have h: "findToCBlock ?P \<noteq> []" by code_simp
  have l: "tocLastPage ?P (scanBudget 8) = 0" by code_simp
  have e: "tocExtend (scanBudget 8) = 4" by code_simp
  have p: "pageToCLines (?P ! 2) = []" by code_simp
  have v: "findToCMultiPage ?P 8 = [''1 Intro 3'', ''2 Next 9'', ''1.1 More 4'']" by code_simp
  from findToCMultiPage_extension [OF h, of 8]
  have "tocLastPage ?P (scanBudget 8) < 2
            \<and> 2 \<le> tocLastPage ?P (scanBudget 8) + tocExtend (scanBudget 8)
            \<and> 2 < length ?P \<and> pageToCLines (?P ! 2) = []
          \<longrightarrow> findToCMultiPage ?P 8 =
                findToCBlock ?P
                @ concat (map pageToCLines
                    (takeWhile (\<lambda>p. pageToCLines p \<noteq> [])
                       (take (2 - (tocLastPage ?P (scanBudget 8) + 1))
                          (drop (tocLastPage ?P (scanBudget 8) + 1) ?P))))"
    by blast
  then have "findToCMultiPage ?P 8 =
       findToCBlock ?P
       @ concat (map pageToCLines
           (takeWhile (\<lambda>p. pageToCLines p \<noteq> []) (take (2 - (0 + 1)) (drop (0 + 1) ?P))))"
    unfolding l e using p by simp
  with h l p v show ?thesis by (intro conjI)
qed

section \<open>transformTables on two pages\<close>

text \<open>
  The page of the specification's second scenario becomes a table: the header row,
  the separator row and the two data rows.
\<close>

lemma transformTables_scenario:
  "transformTables (''Name   Qty   Price'' @ [CHR 0x0A] @ ''Bolt   10    2.50'' @ [CHR 0x0A]
       @ ''Nut    20    0.75'')
   = ''| Name | Qty | Price |'' @ [CHR 0x0A] @ ''| --- | --- | --- |'' @ [CHR 0x0A]
     @ ''| Bolt | 10 | 2.50 |'' @ [CHR 0x0A] @ ''| Nut | 20 | 0.75 |''"
  by code_simp

text \<open>
  C9: the general part fails on a run that follows a line with another number of
  fields. On the page of the three lines \<open>a  b\<close>, \<open>x  y  z\<close>, \<open>p  q  r\<close> the last two
  lines are a run of two aligned lines with three fields each, and transformTables
  returns the page unchanged: the block that starts at the first line ends at the
  second line with one row, the loop passes both lines through and goes on after the
  second line, which is never tried as the first row of a block.
\<close>

theorem transformTables_run_after_other_width:
  "map splitBy2Spaces [''a  b'', ''x  y  z'', ''p  q  r'']
     = [[''a'', ''b''], [''x'', ''y'', ''z''], [''p'', ''q'', ''r'']]
   \<and> transformTables (''a  b'' @ [CHR 0x0A] @ ''x  y  z'' @ [CHR 0x0A] @ ''p  q  r'')
     = ''a  b'' @ [CHR 0x0A] @ ''x  y  z'' @ [CHR 0x0A] @ ''p  q  r''"
  by code_simp

section \<open>Properties of replaceAll, fields and join\<close>

text \<open>\<open>contains s g\<close> holds exactly when \<open>g\<close> stands somewhere in \<open>s\<close>.\<close>

lemma contains_iff: "contains s g \<longleftrightarrow> (\<exists>u v. s = u @ g @ v)"
proof (induction s)
  case Nil
  then show ?case by auto
next
  case (Cons c s)
  show ?case
  proof
    assume "contains (c # s) g"
    then consider "prefix g (c # s)" | "contains s g" by auto
    then show "\<exists>u v. c # s = u @ g @ v"
    proof cases
      case 1
      then obtain v where "c # s = g @ v" by (auto simp: prefix_def)
      then have "c # s = [] @ g @ v" by simp
      then show ?thesis by blast
    next
      case 2
      with Cons.IH obtain u v where "s = u @ g @ v" by blast
      then have "c # s = (c # u) @ g @ v" by simp
      then show ?thesis by blast
    qed
  next
    assume "\<exists>u v. c # s = u @ g @ v"
    then obtain u v where uv: "c # s = u @ g @ v" by blast
    show "contains (c # s) g"
    proof (cases u)
      case Nil
      with uv have "prefix g (c # s)" by (simp add: prefix_def)
      then show ?thesis by simp
    next
      case (Cons a u')
      with uv have "s = u' @ g @ v" by simp
      with Cons.IH have "contains s g" by blast
      then show ?thesis by simp
    qed
  qed
qed

lemma contains_append_disjoint:
  assumes "contains (u @ v) g" and "g \<noteq> []" and "set g \<inter> set u = {}"
  shows "contains v g"
  using assms
proof (induction u)
  case Nil
  then show ?case by simp
next
  case (Cons a u)
  from Cons.prems(2,3) have "\<not> prefix g (a # u @ v)"
    by (cases g) (auto simp: prefix_def)
  with Cons.prems have "contains (u @ v) g" by simp
  with Cons show ?case by auto
qed

lemma prefix_replaceAll:
  assumes "rep \<noteq> []"
  shows "set g \<inter> set rep = {} \<Longrightarrow> prefix g (replaceAll pat rep s) \<Longrightarrow> prefix g s"
proof (induction s arbitrary: g)
  case Nil
  then show ?case by simp
next
  case (Cons c s)
  show ?case
  proof (cases g)
    case Nil
    then show ?thesis by simp
  next
    case g: (Cons x g')
    show ?thesis
    proof (cases "pat \<noteq> [] \<and> prefix pat (c # s)")
      case True
      with Cons.prems(2) g have "prefix (x # g') (rep @ replaceAll pat rep (drop (length pat - 1) s))"
        by simp
      with assms have "x = hd rep" by (cases rep) auto
      with assms Cons.prems(1) g show ?thesis by (cases rep) auto
    next
      case False
      with Cons.prems(2) g have "x = c" "prefix g' (replaceAll pat rep s)" by auto
      moreover from Cons.prems(1) g have "set g' \<inter> set rep = {}" by auto
      ultimately show ?thesis using Cons.IH g by auto
    qed
  qed
qed

lemma contains_replaceAll:
  "rep \<noteq> [] \<Longrightarrow> g \<noteq> [] \<Longrightarrow> set g \<inter> set rep = {}
     \<Longrightarrow> contains (replaceAll pat rep s) g \<Longrightarrow> contains s g"
proof (induction pat rep s rule: replaceAll.induct)
  case (1 old new)
  then show ?case by simp
next
  case (2 old new c cs)
  show ?case
  proof (cases "old \<noteq> [] \<and> prefix old (c # cs)")
    case True
    with "2.prems" have "contains (new @ replaceAll old new (drop (length old - 1) cs)) g"
      by simp
    then have "contains (replaceAll old new (drop (length old - 1) cs)) g"
      using "2.prems"(2,3) by (rule contains_append_disjoint)
    with "2.IH"(1) True "2.prems" have "contains (drop (length old - 1) cs) g"
      by simp
    then obtain u v where "drop (length old - 1) cs = u @ g @ v"
      by (auto simp: contains_iff)
    then have "cs = take (length old - 1) cs @ u @ g @ v"
      by (metis append_take_drop_id)
    then have "c # cs = (c # take (length old - 1) cs @ u) @ g @ v"
      by simp
    then show ?thesis unfolding contains_iff by blast
  next
    case False
    with "2.prems" have "contains (c # replaceAll old new cs) g" by auto
    then consider "prefix g (c # replaceAll old new cs)" | "contains (replaceAll old new cs) g"
      by auto
    then show ?thesis
    proof cases
      case 1
      with False have "prefix g (replaceAll old new (c # cs))" by auto
      from prefix_replaceAll [OF "2.prems"(1,3) this] have "prefix g (c # cs)" .
      then show ?thesis by simp
    next
      case 2
      with "2.IH"(2) False "2.prems" have "contains cs g" by simp
      then show ?thesis by simp
    qed
  qed
qed

lemma replaceAll_removes:
  "pat \<noteq> [] \<Longrightarrow> rep \<noteq> [] \<Longrightarrow> set pat \<inter> set rep = {}
     \<Longrightarrow> \<not> contains (replaceAll pat rep s) pat"
proof (induction pat rep s rule: replaceAll.induct)
  case (1 old new)
  then show ?case by simp
next
  case (2 old new c cs)
  show ?case
  proof (cases "prefix old (c # cs)")
    case True
    show ?thesis
    proof
      assume "contains (replaceAll old new (c # cs)) old"
      with True "2.prems" have "contains (new @ replaceAll old new (drop (length old - 1) cs)) old"
        by simp
      then have "contains (replaceAll old new (drop (length old - 1) cs)) old"
        using "2.prems"(1,3) by (rule contains_append_disjoint)
      with "2.IH"(1) True "2.prems" show False by simp
    qed
  next
    case False
    show ?thesis
    proof
      assume a: "contains (replaceAll old new (c # cs)) old"
      with False have "contains (c # replaceAll old new cs) old" by simp
      then consider "prefix old (c # replaceAll old new cs)" | "contains (replaceAll old new cs) old"
        by auto
      then show False
      proof cases
        case 1
        with False have "prefix old (replaceAll old new (c # cs))" by auto
        from prefix_replaceAll [OF "2.prems"(2,3) this] have "prefix old (c # cs)" .
        with False show False by simp
      next
        case 2
        with "2.IH"(2) False "2.prems" show False by simp
      qed
    qed
  qed
qed

lemma spaceWidth_append: "spaceWidth u \<noteq> 0 \<Longrightarrow> spaceWidth (u @ v) = spaceWidth u"
  by (cases u; cases "tl u"; cases "tl (tl u)") (auto split: if_splits)

lemma spaceWidth_isAsciiSpace: "isAsciiSpace c \<Longrightarrow> spaceWidth (c # cs) = 1"
  by simp

lemma noSpaceIn_iff: "noSpaceIn w \<longleftrightarrow> (\<forall>i<length w. spaceWidth (drop i w) = 0)"
proof (induction w)
  case Nil
  then show ?case by simp
next
  case (Cons c w)
  show ?case
  proof
    assume a: "noSpaceIn (c # w)"
    show "\<forall>i<length (c # w). spaceWidth (drop i (c # w)) = 0"
    proof (intro allI impI)
      fix i assume "i < length (c # w)"
      with a Cons.IH show "spaceWidth (drop i (c # w)) = 0"
        by (cases i) auto
    qed
  next
    assume a: "\<forall>i<length (c # w). spaceWidth (drop i (c # w)) = 0"
    then have "spaceWidth (drop 0 (c # w)) = 0" by blast
    moreover have "\<forall>i<length w. spaceWidth (drop i w) = 0"
    proof (intro allI impI)
      fix i assume "i < length w"
      with a have "spaceWidth (drop (Suc i) (c # w)) = 0" by (metis Suc_less_eq length_Cons)
      then show "spaceWidth (drop i w) = 0" by simp
    qed
    ultimately show "noSpaceIn (c # w)" using Cons.IH by simp
  qed
qed

lemma fieldsFrom_words:
  "(\<forall>i<length cur. spaceWidth (drop i cur @ s) = 0) \<Longrightarrow> w \<in> set (fieldsFrom cur s)
     \<Longrightarrow> w \<noteq> [] \<and> noSpaceIn w"
proof (induction cur s rule: fieldsFrom.induct)
  case (1 cur)
  then have w: "w = cur" "cur \<noteq> []" by (auto split: if_splits)
  have "spaceWidth (drop i cur) = 0" if "i < length cur" for i
  proof (rule ccontr)
    assume "spaceWidth (drop i cur) \<noteq> 0"
    with "1.prems"(1) that show False by auto
  qed
  with w show ?case by (simp add: noSpaceIn_iff)
next
  case (2 cur c cs)
  show ?case
  proof (cases "spaceWidth (c # cs) = 0")
    case True
    have inv: "\<forall>i<length (cur @ [c]). spaceWidth (drop i (cur @ [c]) @ cs) = 0"
    proof (intro allI impI)
      fix i assume i: "i < length (cur @ [c])"
      show "spaceWidth (drop i (cur @ [c]) @ cs) = 0"
      proof (cases "i < length cur")
        case True
        with "2.prems"(1) show ?thesis by simp
      next
        case False
        with i have "i = length cur" by simp
        with True show ?thesis by simp
      qed
    qed
    from True "2.prems"(2) have "w \<in> set (fieldsFrom (cur @ [c]) cs)" by simp
    from "2.IH"(1) [OF True inv this] show ?thesis .
  next
    case False
    with "2.prems"(2) consider "w = cur" "cur \<noteq> []"
      | "w \<in> set (fieldsFrom [] (drop (spaceWidth (c # cs) - 1) cs))"
      by (auto split: if_splits)
    then show ?thesis
    proof cases
      case 1
      have "spaceWidth (drop i cur) = 0" if "i < length cur" for i
      proof (rule ccontr)
        assume n: "spaceWidth (drop i cur) \<noteq> 0"
        from "2.prems"(1) that have "spaceWidth (drop i cur @ c # cs) = 0" by blast
        with spaceWidth_append [OF n] n show False by simp
      qed
      with 1 show ?thesis by (simp add: noSpaceIn_iff)
    next
      case 2
      from "2.IH"(2) [OF False _ this] show ?thesis by simp
    qed
  qed
qed

lemma fields_words: "w \<in> set (fields s) \<Longrightarrow> w \<noteq> [] \<and> noSpaceIn w"
  unfolding fields_def by (rule fieldsFrom_words) simp_all

lemma fieldsFrom_substring:
  "w \<in> set (fieldsFrom cur s) \<Longrightarrow> \<exists>a b. cur @ s = a @ w @ b"
proof (induction cur s rule: fieldsFrom.induct)
  case (1 cur)
  then have "w = cur" by (auto split: if_splits)
  then have "cur @ [] = [] @ w @ []" by simp
  then show ?case by blast
next
  case (2 cur c cs)
  show ?case
  proof (cases "spaceWidth (c # cs) = 0")
    case True
    with 2 have "\<exists>a b. (cur @ [c]) @ cs = a @ w @ b" by simp
    then show ?thesis by simp
  next
    case False
    with "2.prems" consider "w = cur"
      | "w \<in> set (fieldsFrom [] (drop (spaceWidth (c # cs) - 1) cs))"
      by (auto split: if_splits)
    then show ?thesis
    proof cases
      case 1
      then have "cur @ c # cs = [] @ w @ c # cs" by simp
      then show ?thesis by blast
    next
      case 2
      with "2.IH"(2) False obtain a b where "[] @ drop (spaceWidth (c # cs) - 1) cs = a @ w @ b"
        by blast
      then have "cs = take (spaceWidth (c # cs) - 1) cs @ a @ w @ b"
        by (metis append_Nil append_take_drop_id)
      then have "cur @ c # cs = (cur @ c # take (spaceWidth (c # cs) - 1) cs @ a) @ w @ b"
        by simp
      then show ?thesis by blast
    qed
  qed
qed

lemma fields_contains: "w \<in> set (fields s) \<Longrightarrow> contains w g \<Longrightarrow> contains s g"
proof -
  assume "w \<in> set (fields s)" and "contains w g"
  then obtain a b u v where "s = a @ w @ b" "w = u @ g @ v"
    using fieldsFrom_substring [of w "[]" s] by (auto simp: fields_def contains_iff)
  then have "s = (a @ u) @ g @ (v @ b)" by simp
  then show ?thesis unfolding contains_iff by blast
qed

lemma prefix_before_char:
  assumes "prefix g (p @ c # q)" and "c \<notin> set g"
  shows "prefix g p"
proof -
  from assms(1) consider "prefix g p" | us where "g = p @ us" "prefix us (c # q)"
    by (auto simp: prefix_append)
  then show ?thesis
  proof cases
    case 1
    then show ?thesis .
  next
    case 2
    with assms(2) have "us = []" by (cases us) auto
    with 2 show ?thesis by simp
  qed
qed

lemma contains_split_char:
  assumes "c \<notin> set g" and "g \<noteq> []"
  shows "contains (u @ c # v) g \<Longrightarrow> contains u g \<or> contains v g"
proof (induction u)
  case Nil
  with assms have "\<not> prefix g (c # v)" by (cases g) auto
  with Nil show ?case by simp
next
  case (Cons x u)
  from Cons.prems consider "prefix g ((x # u) @ c # v)" | "contains (u @ c # v) g" by auto
  then show ?case
  proof cases
    case 1
    from prefix_before_char [OF this assms(1)] show ?thesis by simp
  next
    case 2
    with Cons.IH show ?thesis by auto
  qed
qed

lemma join_contains:
  assumes "CHR '' '' \<notin> set g" and "g \<noteq> []"
  shows "contains (join ws '' '') g \<Longrightarrow> \<exists>w \<in> set ws. contains w g"
proof (induction ws "'' ''" rule: join.induct)
  case 1
  with assms show ?case by simp
next
  case (2 x)
  then show ?case by simp
next
  case (3 x y ys)
  from "3.prems" have "contains (x @ CHR '' '' # join (y # ys) '' '') g" by simp
  from contains_split_char [OF assms this] "3.hyps" show ?case by auto
qed

lemma through_space:
  "g \<noteq> [] \<Longrightarrow> CHR '' '' \<notin> set g \<Longrightarrow> contains (replaceAll pat '' '' s) g \<Longrightarrow> contains s g"
  by (rule contains_replaceAll [of "'' ''"]) auto

lemma through_dots:
  "g \<noteq> [] \<Longrightarrow> CHR '' '' \<notin> set g \<Longrightarrow> CHR ''.'' \<notin> set g
     \<Longrightarrow> contains (replaceAll pat '' ... '' s) g \<Longrightarrow> contains s g"
  by (rule contains_replaceAll [of "'' ... ''"]) auto

lemma removed_by_space:
  "g \<noteq> [] \<Longrightarrow> CHR '' '' \<notin> set g \<Longrightarrow> \<not> contains (replaceAll g '' '' s) g"
  by (rule replaceAll_removes) auto

lemma removed_by_dots:
  "g \<noteq> [] \<Longrightarrow> CHR '' '' \<notin> set g \<Longrightarrow> CHR ''.'' \<notin> set g
     \<Longrightarrow> \<not> contains (replaceAll g '' ... '' s) g"
  by (rule replaceAll_removes) auto

lemma through_fields:
  assumes "g \<noteq> []" and "CHR '' '' \<notin> set g" and "contains (join (fields s) '' '') g"
  shows "contains s g"
  using join_contains [OF assms(2,1,3)] fields_contains by blast

lemma bullet_facts: "bullet \<noteq> []" "CHR '' '' \<notin> set bullet" "CHR ''.'' \<notin> set bullet"
  by (simp_all add: bullet_def)

lemma middleDot_facts:
  "middleDot \<noteq> []" "CHR '' '' \<notin> set middleDot" "CHR ''.'' \<notin> set middleDot"
  by (simp_all add: middleDot_def)

lemma ellipsis_facts:
  "ellipsis \<noteq> []" "CHR '' '' \<notin> set ellipsis" "CHR ''.'' \<notin> set ellipsis"
  by (simp_all add: ellipsis_def)

section \<open>The glyph replacements of normalizeDotLeaders as a single pass\<close>

lemma normalizeDotLeaders_steps:
  "normalizeDotLeaders s = join (fields (dotLeaderSteps (glyphSteps s))) '' ''"
  by (simp add: normalizeDotLeaders_def dotLeaderSteps_def glyphSteps_def)

lemma replaceAll_nomatch:
  "\<not> prefix pat (c # cs) \<Longrightarrow> replaceAll pat rep (c # cs) = c # replaceAll pat rep cs"
  by simp

lemma glyphSteps_Nil: "glyphSteps [] = []"
  by (simp add: glyphSteps_def)

lemma glyphSteps_bullet: "glyphSteps (bullet @ r) = '' '' @ glyphSteps r"
  by (simp add: glyphSteps_def bullet_def middleDot_def ellipsis_def)

lemma glyphSteps_middleDot: "glyphSteps (middleDot @ r) = '' '' @ glyphSteps r"
  by (simp add: glyphSteps_def bullet_def middleDot_def ellipsis_def)

lemma glyphSteps_ellipsis: "glyphSteps (ellipsis @ r) = '' ... '' @ glyphSteps r"
  by (simp add: glyphSteps_def bullet_def middleDot_def ellipsis_def)

lemma prefix_through_space:
  "CHR '' '' \<notin> set g \<Longrightarrow> prefix g (replaceAll pat '' '' s) \<Longrightarrow> prefix g s"
  by (rule prefix_replaceAll [of "'' ''"]) auto

lemma prefix_through_dots:
  "CHR '' '' \<notin> set g \<Longrightarrow> CHR ''.'' \<notin> set g
     \<Longrightarrow> prefix g (replaceAll pat '' ... '' s) \<Longrightarrow> prefix g s"
  by (rule prefix_replaceAll [of "'' ... ''"]) auto

lemma glyphSteps_other:
  assumes nb: "\<not> prefix bullet (c # cs)" and nm: "\<not> prefix middleDot (c # cs)"
    and ne: "\<not> prefix ellipsis (c # cs)"
  shows "glyphSteps (c # cs) = c # glyphSteps cs"
proof -
  let ?s = "c # cs"
  define r1 where "r1 = replaceAll bullet '' '' cs"
  define r2 where "r2 = replaceAll middleDot '' '' r1"
  define r3 where "r3 = replaceAll ellipsis '' ... '' r2"
  define r4 where "r4 = replaceAll middleDot '' '' r3"
  define r5 where "r5 = replaceAll ellipsis '' ... '' r4"
  have s1: "replaceAll bullet '' '' ?s = c # r1"
    using nb by (simp add: r1_def)
  have "\<not> prefix middleDot (c # r1)"
    using prefix_through_space [OF middleDot_facts(2), of bullet ?s] nm s1 by auto
  then have s2: "replaceAll middleDot '' '' (c # r1) = c # r2"
    by (simp add: r2_def)
  have "\<not> prefix ellipsis (c # r2)"
  proof
    assume "prefix ellipsis (c # r2)"
    then have "prefix ellipsis (replaceAll middleDot '' '' (c # r1))" by (simp only: s2)
    then have "prefix ellipsis (c # r1)" by (rule prefix_through_space [OF ellipsis_facts(2)])
    then have "prefix ellipsis (replaceAll bullet '' '' ?s)" by (simp only: s1)
    then have "prefix ellipsis ?s" by (rule prefix_through_space [OF ellipsis_facts(2)])
    with ne show False ..
  qed
  then have s3: "replaceAll ellipsis '' ... '' (c # r2) = c # r3"
    by (simp add: r3_def)
  have "\<not> prefix middleDot (c # r3)"
  proof
    assume "prefix middleDot (c # r3)"
    then have "prefix middleDot (replaceAll ellipsis '' ... '' (c # r2))" by (simp only: s3)
    then have "prefix middleDot (c # r2)" by (rule prefix_through_dots [OF middleDot_facts(2,3)])
    then have "prefix middleDot (replaceAll middleDot '' '' (c # r1))" by (simp only: s2)
    then have "prefix middleDot (c # r1)" by (rule prefix_through_space [OF middleDot_facts(2)])
    then have "prefix middleDot (replaceAll bullet '' '' ?s)" by (simp only: s1)
    then have "prefix middleDot ?s" by (rule prefix_through_space [OF middleDot_facts(2)])
    with nm show False ..
  qed
  then have s4: "replaceAll middleDot '' '' (c # r3) = c # r4"
    by (simp add: r4_def)
  have "\<not> prefix ellipsis (c # r4)"
  proof
    assume "prefix ellipsis (c # r4)"
    then have "prefix ellipsis (replaceAll middleDot '' '' (c # r3))" by (simp only: s4)
    then have "prefix ellipsis (c # r3)" by (rule prefix_through_space [OF ellipsis_facts(2)])
    then have "prefix ellipsis (replaceAll ellipsis '' ... '' (c # r2))" by (simp only: s3)
    then have "prefix ellipsis (c # r2)" by (rule prefix_through_dots [OF ellipsis_facts(2,3)])
    then have "prefix ellipsis (replaceAll middleDot '' '' (c # r1))" by (simp only: s2)
    then have "prefix ellipsis (c # r1)" by (rule prefix_through_space [OF ellipsis_facts(2)])
    then have "prefix ellipsis (replaceAll bullet '' '' ?s)" by (simp only: s1)
    then have "prefix ellipsis ?s" by (rule prefix_through_space [OF ellipsis_facts(2)])
    with ne show False ..
  qed
  then have s5: "replaceAll ellipsis '' ... '' (c # r4) = c # r5"
    by (simp add: r5_def)
  have "glyphSteps ?s = c # r5"
    unfolding glyphSteps_def s1 s2 s3 s4 s5 ..
  moreover have "glyphSteps cs = r5"
    by (simp add: glyphSteps_def r1_def r2_def r3_def r4_def r5_def)
  ultimately show ?thesis by simp
qed

lemma glyphSteps_expandGlyphs: "glyphSteps s = expandGlyphs s"
proof (induction s rule: expandGlyphs.induct)
  case 1
  then show ?case by (simp add: glyphSteps_Nil)
next
  case (2 c cs)
  show ?case
  proof (cases "prefix bullet (c # cs)")
    case True
    then have "c # cs = bullet @ drop 2 cs"
      by (auto simp: prefix_def bullet_def)
    then have "glyphSteps (c # cs) = '' '' @ glyphSteps (drop 2 cs)"
      by (metis glyphSteps_bullet)
    with True "2.IH"(1) show ?thesis by simp
  next
    case nb: False
    show ?thesis
    proof (cases "prefix middleDot (c # cs)")
      case True
      then have "c # cs = middleDot @ drop 1 cs"
        by (auto simp: prefix_def middleDot_def)
      then have "glyphSteps (c # cs) = '' '' @ glyphSteps (drop 1 cs)"
        by (metis glyphSteps_middleDot)
      with True nb "2.IH"(2) show ?thesis by simp
    next
      case nm: False
      show ?thesis
      proof (cases "prefix ellipsis (c # cs)")
        case True
        then have "c # cs = ellipsis @ drop 2 cs"
          by (auto simp: prefix_def ellipsis_def)
        then have "glyphSteps (c # cs) = '' ... '' @ glyphSteps (drop 2 cs)"
          by (metis glyphSteps_ellipsis)
        with True nb nm "2.IH"(3) show ?thesis by simp
      next
        case ne: False
        from glyphSteps_other [OF nb nm ne] nb nm ne "2.IH"(4) show ?thesis by simp
      qed
    qed
  qed
qed

lemma replaceAll_absent: "\<not> contains s pat \<Longrightarrow> replaceAll pat rep s = s"
  by (induction s) auto

lemma contains_trans: "contains s g \<Longrightarrow> contains g h \<Longrightarrow> contains s h"
proof -
  assume "contains s g" and "contains g h"
  then obtain u v a b where "s = u @ g @ v" "g = a @ h @ b"
    unfolding contains_iff by blast
  then have "s = (u @ a) @ h @ (b @ v)" by simp
  then show ?thesis unfolding contains_iff by blast
qed

lemma dotRun_four: "contains dotRun ''....''"
  by code_simp

lemma spacedDots_one: "contains '' . . . '' '' . ''"
  by code_simp

lemma dotLeaderSteps_absent:
  assumes "\<not> contains x ''....''" and "\<not> contains x '' . ''"
  shows "dotLeaderSteps x = x"
proof -
  from assms(1) have "\<not> contains x dotRun"
    using contains_trans [OF _ dotRun_four] by blast
  then have "replaceAll dotRun '' '' x = x" by (rule replaceAll_absent)
  moreover from assms(2) have "\<not> contains x '' . . . ''"
    using contains_trans [OF _ spacedDots_one] by blast
  then have "replaceAll '' . . . '' '' '' x = x" by (rule replaceAll_absent)
  ultimately show ?thesis by (simp add: dotLeaderSteps_def)
qed

lemma glyphSteps_free:
  "\<not> contains (glyphSteps s) bullet"
  "\<not> contains (glyphSteps s) middleDot"
  "\<not> contains (glyphSteps s) ellipsis"
proof -
  define s1 where "s1 = replaceAll bullet '' '' s"
  define s2 where "s2 = replaceAll middleDot '' '' s1"
  define s3 where "s3 = replaceAll ellipsis '' ... '' s2"
  define s4 where "s4 = replaceAll middleDot '' '' s3"
  define s5 where "s5 = replaceAll ellipsis '' ... '' s4"
  have r: "glyphSteps s = s5"
    by (simp add: glyphSteps_def s1_def s2_def s3_def s4_def s5_def)
  show "\<not> contains (glyphSteps s) bullet"
  proof
    assume "contains (glyphSteps s) bullet"
    then have "contains s5 bullet" by (simp only: r)
    then have "contains s4 bullet" unfolding s5_def by (rule through_dots [OF bullet_facts])
    then have "contains s3 bullet" unfolding s4_def by (rule through_space [OF bullet_facts(1,2)])
    then have "contains s2 bullet" unfolding s3_def by (rule through_dots [OF bullet_facts])
    then have "contains s1 bullet" unfolding s2_def by (rule through_space [OF bullet_facts(1,2)])
    then show False unfolding s1_def using removed_by_space [OF bullet_facts(1,2)] by simp
  qed
  show "\<not> contains (glyphSteps s) middleDot"
  proof
    assume "contains (glyphSteps s) middleDot"
    then have "contains s5 middleDot" by (simp only: r)
    then have "contains s4 middleDot" unfolding s5_def by (rule through_dots [OF middleDot_facts])
    then show False unfolding s4_def using removed_by_space [OF middleDot_facts(1,2)] by simp
  qed
  show "\<not> contains (glyphSteps s) ellipsis"
  proof
    assume "contains (glyphSteps s) ellipsis"
    then have "contains s5 ellipsis" by (simp only: r)
    then show False unfolding s5_def using removed_by_dots [OF ellipsis_facts] by simp
  qed
qed

lemma glyphSteps_absent:
  "\<not> contains x bullet \<Longrightarrow> \<not> contains x middleDot \<Longrightarrow> \<not> contains x ellipsis
     \<Longrightarrow> glyphSteps x = x"
  by (simp add: glyphSteps_def replaceAll_absent)

lemma expandGlyphs_idem: "expandGlyphs (expandGlyphs s) = expandGlyphs s"
proof -
  have "glyphSteps (glyphSteps s) = glyphSteps s"
    by (rule glyphSteps_absent) (rule glyphSteps_free)+
  then show ?thesis by (simp only: glyphSteps_expandGlyphs)
qed

lemma normalizeDotLeaders_expand:
  "normalizeDotLeaders s = join (fields (dotLeaderSteps (expandGlyphs s))) '' ''"
  by (simp only: normalizeDotLeaders_steps glyphSteps_expandGlyphs)

section \<open>Properties of normalizeDotLeaders\<close>

text \<open>
  C7 as stated fails. By design, an ellipsis character is replaced by \<open>" ... "\<close>, so
  that three dots stand where the claim has a single space. Of the literal dots, the
  code replaces only two fixed texts, a run of 106 dots and \<open>" . . . "\<close>: a leader of
  40 dots stays in the result, and of six spaced dots three remain.
\<close>

theorem normalizeDotLeaders_counterexample:
  "normalizeDotLeaders (''a'' @ ellipsis @ ''b'') = ''a ... b''
   \<and> normalizeDotLeaders (''1 Intro '' @ replicate 40 (CHR ''.'') @ '' 5'')
       = ''1 Intro '' @ replicate 40 (CHR ''.'') @ '' 5''
   \<and> normalizeDotLeaders ''1 Intro . . . . . . 5'' = ''1 Intro . . . 5''"
  by code_simp

text \<open>
  C7, amended. For every input line:
  \<^item> normalizeDotLeaders gives the same result as on the line in which each bullet
    point and each middle dot is replaced by a single space and each ellipsis
    character by \<open>" ... "\<close> (\<open>expandGlyphs\<close>);
  \<^item> if that replaced line has no four dots in a row and no single dot between two
    spaces, the result is exactly its white-space-separated words, joined by single
    spaces;
  \<^item> the result holds no bullet point, no middle dot and no ellipsis character;
  \<^item> the result is a list of non-empty words without white space, joined by single
    spaces: the white-space runs are collapsed and both ends trimmed.

  Nothing is stated on what becomes of four or more dots in a row, or of single dots
  between spaces.
\<close>

theorem normalizeDotLeaders_replaces:
  "normalizeDotLeaders s = normalizeDotLeaders (expandGlyphs s)
   \<and> (\<not> contains (expandGlyphs s) ''....'' \<and> \<not> contains (expandGlyphs s) '' . ''
        \<longrightarrow> normalizeDotLeaders s = join (fields (expandGlyphs s)) '' '')
   \<and> \<not> contains (normalizeDotLeaders s) bullet
   \<and> \<not> contains (normalizeDotLeaders s) middleDot
   \<and> \<not> contains (normalizeDotLeaders s) ellipsis
   \<and> (\<exists>ws. normalizeDotLeaders s = join ws '' '' \<and> list_all (\<lambda>w. w \<noteq> [] \<and> noSpaceIn w) ws)"
proof -
  define x where "x = expandGlyphs s"
  define y where "y = dotLeaderSteps x"
  have r: "normalizeDotLeaders s = join (fields y) '' ''"
    by (simp only: normalizeDotLeaders_expand x_def y_def)
  have free: "\<not> contains x bullet" "\<not> contains x middleDot" "\<not> contains x ellipsis"
    by (simp_all add: x_def glyphSteps_free [of s, unfolded glyphSteps_expandGlyphs])
  have same: "normalizeDotLeaders s = normalizeDotLeaders (expandGlyphs s)"
    by (simp only: normalizeDotLeaders_expand expandGlyphs_idem)
  have exact: "normalizeDotLeaders s = join (fields x) '' ''"
    if "\<not> contains x ''....''" and "\<not> contains x '' . ''"
    using dotLeaderSteps_absent [OF that] by (simp only: r y_def)
  have through: "contains x g" if "g \<noteq> []" "CHR '' '' \<notin> set g" "contains (join (fields y) '' '') g" for g
  proof -
    from that have "contains y g" by (rule through_fields)
    then have "contains (replaceAll dotRun '' '' x) g"
      unfolding y_def dotLeaderSteps_def by (rule through_space [OF that(1,2)])
    then show ?thesis by (rule through_space [OF that(1,2)])
  qed
  have no_bullet: "\<not> contains (join (fields y) '' '') bullet"
    using through [OF bullet_facts(1,2)] free(1) by blast
  have no_middle: "\<not> contains (join (fields y) '' '') middleDot"
    using through [OF middleDot_facts(1,2)] free(2) by blast
  have no_ellipsis: "\<not> contains (join (fields y) '' '') ellipsis"
    using through [OF ellipsis_facts(1,2)] free(3) by blast
  have "list_all (\<lambda>w. w \<noteq> [] \<and> noSpaceIn w) (fields y)"
    using fields_words by (auto simp: list_all_iff)
  then have shape: "\<exists>ws. normalizeDotLeaders s = join ws '' '' \<and> list_all (\<lambda>w. w \<noteq> [] \<and> noSpaceIn w) ws"
    unfolding r by blast
  from same exact no_bullet no_middle no_ellipsis shape show ?thesis
    unfolding r [symmetric] x_def by (intro conjI impI) auto
qed

theorem normalizeDotLeaders_replaces_witness:
  "\<not> contains (expandGlyphs ex_glyphLine) ''....''
   \<and> \<not> contains (expandGlyphs ex_glyphLine) '' . ''
   \<and> expandGlyphs ex_glyphLine = ''1 Intro     ...  5''
   \<and> normalizeDotLeaders ex_glyphLine = ''1 Intro ... 5''"
proof -
  have e: "expandGlyphs ex_glyphLine = ''1 Intro     ...  5''"
    by code_simp
  have h1: "contains ''1 Intro     ...  5'' ''....'' = False"
    by code_simp
  have h2: "contains ''1 Intro     ...  5'' '' . '' = False"
    by code_simp
  have h: "\<not> contains (expandGlyphs ex_glyphLine) ''....''"
    "\<not> contains (expandGlyphs ex_glyphLine) '' . ''"
    by (simp_all only: e h1 h2 not_False_eq_True)
  have v: "join (fields ''1 Intro     ...  5'') '' '' = ''1 Intro ... 5''"
    by code_simp
  from normalizeDotLeaders_replaces [of ex_glyphLine] h
  have "normalizeDotLeaders ex_glyphLine = join (fields (expandGlyphs ex_glyphLine)) '' ''"
    by blast
  then have "normalizeDotLeaders ex_glyphLine = ''1 Intro ... 5''"
    by (simp only: e v)
  with h e show ?thesis by (intro conjI)
qed

section \<open>Properties of the matcher\<close>

lemma upt_Suc_Cons: "[0..<Suc (Suc n)] = 0 # map Suc [0..<Suc n]"
  by (metis map_Suc_upt upt_conv_Cons zero_less_Suc)

lemma run_Star_Chr:
  "run (Star (Chr P)) (pre, s, caps) =
     map (\<lambda>j. (rev (take j s) @ pre, drop j s, caps)) (rev [0..<Suc (length (takeWhile P s))])"
proof (induction s arbitrary: pre)
  case Nil
  then show ?case by simp
next
  case (Cons c cs)
  show ?case
  proof (cases "P c")
    case True
    have "run (Star (Chr P)) (pre, c # cs, caps) =
        run (Star (Chr P)) (c # pre, cs, caps) @ [(pre, c # cs, caps)]"
      using True by simp
    also have "\<dots> = map (\<lambda>j. (rev (take j cs) @ c # pre, drop j cs, caps))
          (rev [0..<Suc (length (takeWhile P cs))]) @ [(pre, c # cs, caps)]"
      by (simp only: Cons.IH)
    also have "\<dots> = map (\<lambda>j. (rev (take j (c # cs)) @ pre, drop j (c # cs), caps))
          (rev [0..<Suc (Suc (length (takeWhile P cs)))])"
      by (simp only: upt_Suc_Cons) (simp add: rev_map comp_def)
    finally show ?thesis using True by simp
  next
    case False
    then show ?thesis by simp
  qed
qed

lemma run_LazyStar_Chr:
  "run (LazyStar (Chr P)) (pre, s, caps) =
     map (\<lambda>j. (rev (take j s) @ pre, drop j s, caps)) [0..<Suc (length (takeWhile P s))]"
proof (induction s arbitrary: pre)
  case Nil
  then show ?case by simp
next
  case (Cons c cs)
  show ?case
  proof (cases "P c")
    case True
    have "run (LazyStar (Chr P)) (pre, c # cs, caps) =
        (pre, c # cs, caps) # run (LazyStar (Chr P)) (c # pre, cs, caps)"
      using True by simp
    also have "\<dots> = (pre, c # cs, caps) # map (\<lambda>j. (rev (take j cs) @ c # pre, drop j cs, caps))
          [0..<Suc (length (takeWhile P cs))]"
      by (simp only: Cons.IH)
    also have "\<dots> = map (\<lambda>j. (rev (take j (c # cs)) @ pre, drop j (c # cs), caps))
          [0..<Suc (Suc (length (takeWhile P cs)))]"
      by (simp only: upt_Suc_Cons) (simp add: comp_def)
    finally show ?thesis using True by simp
  next
    case False
    then show ?thesis by simp
  qed
qed

lemma set_run_Plus_Chr:
  "set (run (Plus (Chr P)) (pre, s, caps)) =
     {(rev (take j s) @ pre, drop j s, caps) | j. 1 \<le> j \<and> j \<le> length (takeWhile P s)}"
proof (cases s)
  case Nil
  then show ?thesis by (auto simp: Plus_def)
next
  case (Cons c cs)
  show ?thesis
  proof (cases "P c")
    case True
    have "set (run (Plus (Chr P)) (pre, s, caps)) =
        (\<lambda>j. (rev (take j cs) @ c # pre, drop j cs, caps)) ` {0..<Suc (length (takeWhile P cs))}"
      using True Cons by (simp add: Plus_def run_Star_Chr del: upt_Suc run.simps(5))
    also have "\<dots> = {(rev (take j s) @ pre, drop j s, caps) | j. 1 \<le> j \<and> j \<le> length (takeWhile P s)}"
    proof (intro set_eqI iffI)
      fix x assume "x \<in> (\<lambda>j. (rev (take j cs) @ c # pre, drop j cs, caps)) ` {0..<Suc (length (takeWhile P cs))}"
      then obtain j where j: "j \<le> length (takeWhile P cs)" "x = (rev (take j cs) @ c # pre, drop j cs, caps)"
        by (auto simp: less_Suc_eq_le)
      then have "x = (rev (take (Suc j) s) @ pre, drop (Suc j) s, caps)" "1 \<le> Suc j"
        "Suc j \<le> length (takeWhile P s)"
        using True Cons by auto
      then show "x \<in> {(rev (take j s) @ pre, drop j s, caps) | j. 1 \<le> j \<and> j \<le> length (takeWhile P s)}"
        by blast
    next
      fix x assume "x \<in> {(rev (take j s) @ pre, drop j s, caps) | j. 1 \<le> j \<and> j \<le> length (takeWhile P s)}"
      then obtain j where j: "1 \<le> j" "j \<le> length (takeWhile P s)" "x = (rev (take j s) @ pre, drop j s, caps)"
        by blast
      then obtain i where i: "j = Suc i" by (cases j) auto
      with j True Cons have "i \<le> length (takeWhile P cs)" "x = (rev (take i cs) @ c # pre, drop i cs, caps)"
        by auto
      then show "x \<in> (\<lambda>j. (rev (take j cs) @ c # pre, drop j cs, caps)) ` {0..<Suc (length (takeWhile P cs))}"
        by auto
    qed
    finally show ?thesis .
  next
    case False
    then show ?thesis using Cons by (auto simp: Plus_def)
  qed
qed

lemma failsAtD: "failsAt P b \<Longrightarrow> P x \<Longrightarrow> run b (pre, x # xs, caps) = []"
  by (simp add: failsAt_def)

lemma failsAt_Chr: "(\<And>x. P x \<Longrightarrow> \<not> Q x) \<Longrightarrow> failsAt P (Chr Q)"
  by (simp add: failsAt_def)

lemma failsAt_Cat: "failsAt P a \<Longrightarrow> failsAt P (Cat a b)"
  by (simp add: failsAt_def)

lemma failsAt_Group: "failsAt P a \<Longrightarrow> failsAt P (Group k a)"
  by (simp add: failsAt_def)

lemma failsAt_Plus: "failsAt P a \<Longrightarrow> failsAt P (Plus a)"
  by (simp add: failsAt_def Plus_def)

lemma failsAt_LazyPlus: "failsAt P a \<Longrightarrow> failsAt P (LazyPlus a)"
  by (simp add: failsAt_def LazyPlus_def)

lemma failsAt_Eol: "failsAt P Eol"
  by (simp add: failsAt_def)

lemma failsAt_Star_Cat:
  "(\<And>x. P x \<Longrightarrow> \<not> Q x) \<Longrightarrow> failsAt P b \<Longrightarrow> failsAt P (Cat (Star (Chr Q)) b)"
  by (simp add: failsAt_def)

lemma drop_in_takeWhile:
  "j < length (takeWhile P s) \<Longrightarrow> \<exists>x xs. drop j s = x # xs \<and> P x"
proof (induction s arbitrary: j)
  case Nil
  then show ?case by simp
next
  case (Cons c cs)
  then show ?case by (cases j) (auto split: if_splits)
qed

lemma concat_all_empty: "(\<And>x. x \<in> set xs \<Longrightarrow> g x = []) \<Longrightarrow> concat (map g xs) = []"
  by (induction xs) auto

lemma concat_rev_upt:
  assumes "\<And>j. j < n \<Longrightarrow> g j = []"
  shows "concat (map g (rev [0..<Suc n])) = g n"
proof -
  have "concat (map g (rev [0..<n])) = []"
    using assms by (intro concat_all_empty) auto
  then show ?thesis by simp
qed

lemma concat_map_single:
  assumes "i0 < m" and "\<And>i. i < m \<Longrightarrow> i \<noteq> i0 \<Longrightarrow> g i = []"
  shows "concat (map g [0..<m]) = g i0"
proof -
  from assms(1) have "[0..<m] = [0..<i0] @ i0 # [Suc i0..<m]"
    by (metis le_add1 le_add_same_cancel1 less_imp_add_positive upt_add_eq_append upt_conv_Cons)
  moreover have "concat (map g [0..<i0]) = []"
    using assms by (intro concat_all_empty) auto
  moreover have "concat (map g [Suc i0..<m]) = []"
    using assms by (intro concat_all_empty) auto
  ultimately show ?thesis by (simp only: map_append concat_append list.map concat.simps append_Nil append_Nil2)
qed

lemma forced_Star:
  assumes "failsAt P b"
  shows "run (Cat (Star (Chr P)) b) (pre, s, caps) =
           run b (rev (takeWhile P s) @ pre, dropWhile P s, caps)"
proof -
  let ?n = "length (takeWhile P s)"
  let ?g = "\<lambda>j. run b (rev (take j s) @ pre, drop j s, caps)"
  have "run (Cat (Star (Chr P)) b) (pre, s, caps) = concat (map ?g (rev [0..<Suc ?n]))"
    by (simp add: run_Star_Chr comp_def del: run.simps(5) upt_Suc)
  also have "\<dots> = ?g ?n"
  proof (rule concat_rev_upt)
    fix j assume "j < ?n"
    from drop_in_takeWhile [OF this] obtain x xs where "drop j s = x # xs" "P x" by blast
    with assms show "?g j = []" by (simp add: failsAtD)
  qed
  finally show ?thesis
    by (simp add: takeWhile_eq_take [symmetric] dropWhile_eq_drop [symmetric])
qed

lemma forced_Star_concat:
  assumes "failsAt P b"
  shows "concat (map (run b) (run (Star (Chr P)) (pre, s, caps))) =
           run b (rev (takeWhile P s) @ pre, dropWhile P s, caps)"
  using forced_Star [OF assms, of pre s caps] by (simp del: run.simps(5))

lemma run_Plus_Chr_Cons:
  "run (Plus (Chr P)) (pre, s, caps) =
     (case s of [] \<Rightarrow> []
      | c # cs \<Rightarrow> if P c then run (Star (Chr P)) (c # pre, cs, caps) else [])"
  by (cases s) (simp_all add: Plus_def del: run.simps(5))

lemma forced_Plus:
  assumes "failsAt P b"
  shows "run (Cat (Plus (Chr P)) b) (pre, s, caps) =
           (if takeWhile P s = [] then []
            else run b (rev (takeWhile P s) @ pre, dropWhile P s, caps))"
proof (cases s)
  case Nil
  then show ?thesis by (simp add: run_Plus_Chr_Cons del: run.simps(5))
next
  case (Cons c cs)
  show ?thesis
  proof (cases "P c")
    case True
    have "run (Cat (Plus (Chr P)) b) (pre, s, caps) = run (Cat (Star (Chr P)) b) (c # pre, cs, caps)"
      using True Cons by (simp add: run_Plus_Chr_Cons del: run.simps(5))
    then show ?thesis using True Cons by (simp add: forced_Star_concat [OF assms] del: run.simps(5))
  next
    case False
    then show ?thesis using Cons by (simp add: run_Plus_Chr_Cons del: run.simps(5))
  qed
qed

lemma forced_Group_Plus:
  assumes "failsAt P b"
  shows "run (Cat (Group k (Plus (Chr P))) b) (pre, s, caps) =
           (if takeWhile P s = [] then []
            else run b (rev (takeWhile P s) @ pre, dropWhile P s, caps[k := takeWhile P s]))"
proof (cases s)
  case Nil
  then show ?thesis by (simp add: run_Plus_Chr_Cons del: run.simps(5))
next
  case (Cons c cs)
  show ?thesis
  proof (cases "P c")
    case True
    let ?n = "length (takeWhile P cs)"
    let ?g = "\<lambda>j. run b (rev (take j cs) @ c # pre, drop j cs, caps[k := c # take j cs])"
    have n: "?n \<le> length cs" by (rule length_takeWhile_le)
    have "run (Cat (Group k (Plus (Chr P))) b) (pre, s, caps) =
        concat (map (\<lambda>x. run b (rev (take x cs) @ c # pre, drop x cs,
                     caps[k := c # take (length cs - (length cs - x)) cs]))
           (rev [0..<Suc ?n]))"
      using True Cons
      by (simp add: run_Plus_Chr_Cons run_Star_Chr comp_def Suc_diff_le del: run.simps(5) upt_Suc)
    also have "\<dots> = concat (map ?g (rev [0..<Suc ?n]))"
    proof -
      have "map (\<lambda>x. run b (rev (take x cs) @ c # pre, drop x cs,
                     caps[k := c # take (length cs - (length cs - x)) cs])) (rev [0..<Suc ?n])
          = map ?g (rev [0..<Suc ?n])"
      proof (rule map_cong [OF refl])
        fix x assume "x \<in> set (rev [0..<Suc ?n])"
        with n have "x \<le> length cs" by auto
        then have "length cs - (length cs - x) = x" by simp
        then show "run b (rev (take x cs) @ c # pre, drop x cs,
                     caps[k := c # take (length cs - (length cs - x)) cs]) = ?g x"
          by simp
      qed
      then show ?thesis by (simp only:)
    qed
    also have "\<dots> = ?g ?n"
    proof (rule concat_rev_upt)
      fix j assume "j < ?n"
      from drop_in_takeWhile [OF this] obtain x xs where "drop j cs = x # xs" "P x" by blast
      with assms show "?g j = []" by (simp add: failsAtD)
    qed
    finally show ?thesis
      using True Cons by (simp add: takeWhile_eq_take [symmetric] dropWhile_eq_drop [symmetric])
  next
    case False
    then show ?thesis using Cons by (simp add: run_Plus_Chr_Cons del: run.simps(5))
  qed
qed

lemma tocTail_tocEnd:
  "tocTail k = Cat (Plus (Chr isReSpace)) (Cat (Group k (LazyPlus (Chr isAnyButNewline))) (tocEnd (k + 1)))"
  by (simp add: tocTail_def tocEnd_def)

lemma space_not_digit: "isReSpace x \<Longrightarrow> \<not> isDigit x"
  by (auto simp: isReSpace_def isDigit_def)

lemma digit_not_space: "isDigit x \<Longrightarrow> \<not> isReSpace x"
  by (auto simp: isReSpace_def isDigit_def)

lemma run_tocEnd:
  "run (tocEnd k) (pre, s, caps) =
     (if takeWhile isReSpace s = [] then []
      else if takeWhile isDigit (dropWhile isReSpace s) = [] then []
      else if dropWhile isReSpace (dropWhile isDigit (dropWhile isReSpace s)) = []
        then [(rev (takeWhile isReSpace (dropWhile isDigit (dropWhile isReSpace s)))
                 @ rev (takeWhile isDigit (dropWhile isReSpace s))
                 @ rev (takeWhile isReSpace s) @ pre,
               [], caps[k := takeWhile isDigit (dropWhile isReSpace s)])]
        else [])"
proof -
  have f3: "failsAt isDigit (Cat (Star (Chr isReSpace)) Eol)"
    by (intro failsAt_Star_Cat failsAt_Eol digit_not_space)
  have f2: "failsAt isReSpace (Cat (Group k (Plus (Chr isDigit))) (Cat (Star (Chr isReSpace)) Eol))"
    by (intro failsAt_Cat failsAt_Group failsAt_Plus failsAt_Chr space_not_digit)
  show ?thesis
    unfolding tocEnd_def forced_Plus [OF f2] forced_Group_Plus [OF f3] forced_Star [OF failsAt_Eol]
    by simp
qed

lemma dropWhile_append_stop:
  "b \<noteq> [] \<Longrightarrow> \<not> Q (hd b) \<Longrightarrow> dropWhile Q (a @ b) = dropWhile Q a @ b"
  by (induction a) (auto simp: neq_Nil_conv)

lemma takeWhile_append_stop:
  "b \<noteq> [] \<Longrightarrow> \<not> Q (hd b) \<Longrightarrow> takeWhile Q (a @ b) = takeWhile Q a"
  by (induction a) (auto simp: neq_Nil_conv)

lemma dropWhile_last:
  "t \<noteq> [] \<Longrightarrow> \<not> Q (last t) \<Longrightarrow> dropWhile Q (t @ r) = dropWhile Q t @ r \<and> dropWhile Q t \<noteq> []"
  by (induction t) (auto split: if_splits)

lemma run_tocEnd_inside:
  assumes "t \<noteq> []" and "\<not> isReSpace (last t)" and "P \<noteq> []" and "list_all isDigit P"
  shows "run (tocEnd k) (pre, t @ CHR '' '' # P, caps) = []"
proof -
  let ?X = "dropWhile isReSpace t"
  let ?s = "t @ CHR '' '' # P"
  have sp: "isReSpace (CHR '' '')" "\<not> isDigit (CHR '' '')"
    by (simp_all add: isReSpace_def isDigit_def)
  from assms(3,4) have hdP: "\<not> isReSpace (hd P)"
    by (cases P) (auto simp: digit_not_space)
  from dropWhile_last [of t isReSpace "CHR '' '' # P", OF assms(1,2)]
  have s1: "dropWhile isReSpace ?s = ?X @ CHR '' '' # P"
    by (rule conjunct1)
  have s2: "dropWhile isDigit (?X @ CHR '' '' # P) = dropWhile isDigit ?X @ CHR '' '' # P"
    by (rule dropWhile_append_stop) (simp_all add: sp)
  have "dropWhile isReSpace (dropWhile isDigit ?X @ CHR '' '' # P)
      = dropWhile isReSpace ((dropWhile isDigit ?X @ [CHR '' '']) @ P)"
    by simp
  also have "\<dots> = dropWhile isReSpace (dropWhile isDigit ?X @ [CHR '' '']) @ P"
    using assms(3) hdP by (rule dropWhile_append_stop)
  finally have s3: "dropWhile isReSpace (dropWhile isDigit ?X @ CHR '' '' # P)
      = dropWhile isReSpace (dropWhile isDigit ?X @ [CHR '' '']) @ P" .
  have ne: "dropWhile isReSpace (dropWhile isDigit (dropWhile isReSpace ?s)) \<noteq> []"
    unfolding s1 s2 s3 using assms(3) by simp
  show ?thesis
    unfolding run_tocEnd using ne by (simp only: if_False if_cancel split: if_splits)
qed

lemma run_tocEnd_at_page:
  assumes "P \<noteq> []" and "list_all isDigit P"
  shows "run (tocEnd k) (pre, CHR '' '' # P, caps)
           = [(rev P @ CHR '' '' # pre, [], caps[k := P])]"
proof -
  have sp: "isReSpace (CHR '' '')" by (simp add: isReSpace_def)
  from assms have hdP: "\<not> isReSpace (hd P)"
    by (cases P) (auto simp: digit_not_space)
  from assms(1) hdP have tw: "takeWhile isReSpace P = []" "dropWhile isReSpace P = P"
    by (cases P; simp)+
  from assms(2) have d: "takeWhile isDigit P = P" "dropWhile isDigit P = []"
    by (simp_all add: list_all_iff)
  show ?thesis using sp assms(1) by (simp add: run_tocEnd tw d)
qed

lemma run_tocEnd_in_page:
  assumes "list_all isDigit P"
  shows "run (tocEnd k) (pre, P, caps) = []"
proof -
  from assms have "takeWhile isReSpace P = []"
    by (cases P) (auto simp: digit_not_space)
  then show ?thesis by (simp add: run_tocEnd)
qed

declare run.simps(5) [simp del] run.simps(6) [simp del]

lemma takeWhile_prefix_all:
  "list_all P d \<Longrightarrow> length d \<le> length (takeWhile P (d @ r))"
  by (induction d) auto

lemma take_takeWhile_all:
  "j \<le> length (takeWhile P s) \<Longrightarrow> list_all P (take j s)"
proof (induction s arbitrary: j)
  case Nil
  then show ?case by simp
next
  case (Cons c cs)
  then show ?case by (cases j) (auto split: if_splits)
qed

lemma in_run_dotDigits:
  "q \<in> set (run dotDigits (pre, s, caps)) \<longleftrightarrow>
     (\<exists>d r. d \<noteq> [] \<and> list_all isDigit d \<and> s = CHR ''.'' # d @ r
            \<and> q = (rev d @ CHR ''.'' # pre, r, caps))"
proof (cases s)
  case Nil
  then show ?thesis by (simp add: dotDigits_def)
next
  case (Cons c cs)
  show ?thesis
  proof (cases "c = CHR ''.''")
    case False
    then show ?thesis using Cons by (simp add: dotDigits_def)
  next
    case True
    have r: "run dotDigits (pre, s, caps) = run (Plus (Chr isDigit)) (c # pre, cs, caps)"
      using True Cons by (simp add: dotDigits_def del: run.simps(5))
    show ?thesis
    proof
      assume "q \<in> set (run dotDigits (pre, s, caps))"
      then obtain j where j: "1 \<le> j" "j \<le> length (takeWhile isDigit cs)"
        "q = (rev (take j cs) @ c # pre, drop j cs, caps)"
        unfolding r set_run_Plus_Chr by blast
      have "j \<le> length cs" using j(2) length_takeWhile_le [of isDigit cs] by simp
      with j(1) have "take j cs \<noteq> []" by (cases cs) auto
      moreover have "list_all isDigit (take j cs)" using j(2) by (rule take_takeWhile_all)
      moreover have "s = CHR ''.'' # take j cs @ drop j cs" using True Cons by simp
      ultimately show "\<exists>d r. d \<noteq> [] \<and> list_all isDigit d \<and> s = CHR ''.'' # d @ r
            \<and> q = (rev d @ CHR ''.'' # pre, r, caps)"
        using j(3) True by blast
    next
      assume "\<exists>d r. d \<noteq> [] \<and> list_all isDigit d \<and> s = CHR ''.'' # d @ r
            \<and> q = (rev d @ CHR ''.'' # pre, r, caps)"
      then obtain d r where d: "d \<noteq> []" "list_all isDigit d" "s = CHR ''.'' # d @ r"
        "q = (rev d @ CHR ''.'' # pre, r, caps)" by blast
      from d(3) Cons have cs: "cs = d @ r" by simp
      have "1 \<le> length d" using d(1) by (cases d) auto
      moreover have "length d \<le> length (takeWhile isDigit cs)"
        unfolding cs using d(2) by (rule takeWhile_prefix_all)
      moreover have "q = (rev (take (length d) cs) @ c # pre, drop (length d) cs, caps)"
        using d(4) True by (simp add: cs)
      ultimately show "q \<in> set (run dotDigits (pre, s, caps))"
        unfolding r set_run_Plus_Chr by blast
    qed
  qed
qed

lemma run_Star_sound:
  "q \<in> set (run (Star dotDigits) (pre, s, caps)) \<Longrightarrow>
     \<exists>w r. s = w @ r \<and> q = (rev w @ pre, r, caps) \<and> list_all numChar w"
proof (induction "length s" arbitrary: s pre rule: less_induct)
  case less
  from less.prems have "q \<in> set (concat (map (\<lambda>q. if length (fst (snd q)) < length s
        then run (Star dotDigits) q else []) (run dotDigits (pre, s, caps))) @ [(pre, s, caps)])"
    by (subst (asm) run.simps(5)) simp
  then consider "q = (pre, s, caps)"
    | q1 where "q1 \<in> set (run dotDigits (pre, s, caps))" "length (fst (snd q1)) < length s"
        "q \<in> set (run (Star dotDigits) q1)"
    by (auto split: if_splits)
  then show ?case
  proof cases
    case 1
    then show ?thesis by simp
  next
    case 2
    from 2(1) obtain d r where d: "list_all isDigit d" "s = CHR ''.'' # d @ r"
      "q1 = (rev d @ CHR ''.'' # pre, r, caps)"
      unfolding in_run_dotDigits by blast
    have "length r < length s" using d(2) by simp
    from less.hyps [OF this] 2(3) obtain w r' where w: "r = w @ r'"
      "q = (rev w @ rev d @ CHR ''.'' # pre, r', caps)" "list_all numChar w"
      unfolding d(3) by blast
    have "s = (CHR ''.'' # d @ w) @ r'" using d(2) w(1) by simp
    moreover have "q = (rev (CHR ''.'' # d @ w) @ pre, r', caps)" using w(2) by simp
    moreover have "list_all numChar (CHR ''.'' # d @ w)"
      using d(1) w(3) by (auto simp: numChar_def list_all_iff)
    ultimately show ?thesis by blast
  qed
qed

lemma run_Star_complete:
  "list_all (\<lambda>g. g \<noteq> [] \<and> list_all isDigit g) groups \<Longrightarrow>
     (rev (concat (map (\<lambda>g. CHR ''.'' # g) groups)) @ pre, r, caps)
       \<in> set (run (Star dotDigits) (pre, concat (map (\<lambda>g. CHR ''.'' # g) groups) @ r, caps))"
proof (induction groups arbitrary: pre)
  case Nil
  show ?case by (subst run.simps(5)) simp
next
  case (Cons g gs)
  let ?rest = "concat (map (\<lambda>g. CHR ''.'' # g) gs) @ r"
  let ?q1 = "(rev g @ CHR ''.'' # pre, ?rest, caps)"
  from Cons.prems have g: "g \<noteq> []" "list_all isDigit g" by simp_all
  have "?q1 \<in> set (run dotDigits (pre, CHR ''.'' # g @ ?rest, caps))"
    unfolding in_run_dotDigits using g by blast
  moreover have "length (fst (snd ?q1)) < length (CHR ''.'' # g @ ?rest)" by simp
  moreover have "(rev (concat (map (\<lambda>g. CHR ''.'' # g) gs)) @ rev g @ CHR ''.'' # pre, r, caps)
       \<in> set (run (Star dotDigits) ?q1)"
    using Cons.IH [of "rev g @ CHR ''.'' # pre"] Cons.prems by simp
  ultimately have "(rev (concat (map (\<lambda>g. CHR ''.'' # g) gs)) @ rev g @ CHR ''.'' # pre, r, caps)
       \<in> set (run (Star dotDigits) (pre, CHR ''.'' # g @ ?rest, caps))"
    by (subst run.simps(5)) force
  then show ?case by simp
qed

lemma run_Group_LazyPlus:
  assumes "list_all Q s"
  shows "run (Cat (Group k (LazyPlus (Chr Q))) b) (pre, s, caps) =
     concat (map (\<lambda>j. run b (rev (take (Suc j) s) @ pre, drop (Suc j) s, caps[k := take (Suc j) s]))
                 [0..<length s])"
proof (cases s)
  case Nil
  then show ?thesis by (simp add: LazyPlus_def)
next
  case (Cons c cs)
  with assms have c: "Q c" and cs: "takeWhile Q cs = cs"
    by (simp_all add: list_all_iff)
  have "run (LazyPlus (Chr Q)) (pre, s, caps) =
      map (\<lambda>j. (rev (take j cs) @ c # pre, drop j cs, caps)) [0..<Suc (length cs)]"
    using c Cons by (simp add: LazyPlus_def run_LazyStar_Chr cs del: upt_Suc)
  then have "run (Cat (Group k (LazyPlus (Chr Q))) b) (pre, s, caps) =
      concat (map (\<lambda>j. run b (rev (take j cs) @ c # pre, drop j cs,
                caps[k := take (length s - length (drop j cs)) s])) [0..<Suc (length cs)])"
    by (simp add: comp_def del: upt_Suc)
  also have "map (\<lambda>j. run b (rev (take j cs) @ c # pre, drop j cs,
                caps[k := take (length s - length (drop j cs)) s])) [0..<Suc (length cs)]
      = map (\<lambda>j. run b (rev (take (Suc j) s) @ pre, drop (Suc j) s, caps[k := take (Suc j) s]))
                 [0..<length s]"
  proof (rule map_cong)
    show "[0..<Suc (length cs)] = [0..<length s]" using Cons by simp
  next
    fix j assume "j \<in> set [0..<length s]"
    then have "j \<le> length cs" using Cons by auto
    then have "length s - length (drop j cs) = Suc j" using Cons by simp
    then show "run b (rev (take j cs) @ c # pre, drop j cs,
                caps[k := take (length s - length (drop j cs)) s])
        = run b (rev (take (Suc j) s) @ pre, drop (Suc j) s, caps[k := take (Suc j) s])"
      using Cons by simp
  qed
  finally show ?thesis .
qed

lemma run_Plus_one:
  assumes "Q c" and "s \<noteq> []" and "\<not> Q (hd s)"
  shows "run (Plus (Chr Q)) (pre, c # s, caps) = [(c # pre, s, caps)]"
proof -
  from assms(2,3) have "takeWhile Q s = []" by (cases s) auto
  then show ?thesis using assms(1) by (simp add: run_Plus_Chr_Cons run_Star_Chr)
qed

lemma run_Plus_fails:
  "s = [] \<or> \<not> Q (hd s) \<Longrightarrow> run (Plus (Chr Q)) (pre, s, caps) = []"
  by (cases s) (auto simp: run_Plus_Chr_Cons)

lemma run_tocTail_fails:
  "s = [] \<or> \<not> isReSpace (hd s) \<Longrightarrow> run (tocTail k) (pre, s, caps) = []"
  by (simp add: tocTail_def run_Plus_fails)

lemma run_tocTail:
  assumes "title \<noteq> []" and "\<not> isReSpace (hd title)" and "\<not> isReSpace (last title)"
    and "list_all isAnyButNewline title" and "P \<noteq> []" and "list_all isDigit P"
  shows "run (tocTail k) (pre, CHR '' '' # title @ CHR '' '' # P, caps)
           = [(rev P @ CHR '' '' # rev title @ CHR '' '' # pre, [],
               caps[k := title, Suc k := P])]"
proof -
  let ?s = "title @ CHR '' '' # P"
  let ?pre = "CHR '' '' # pre"
  let ?g = "\<lambda>j. run (tocEnd (Suc k)) (rev (take (Suc j) ?s) @ ?pre, drop (Suc j) ?s,
                caps[k := take (Suc j) ?s])"
  let ?i0 = "length title - 1"
  have sp: "isReSpace (CHR '' '')" by (simp add: isReSpace_def)
  have i0: "Suc ?i0 = length title" using assms(1) by (cases title) auto
  have digits: "list_all isAnyButNewline P"
    using assms(6) by (auto simp: list_all_iff isDigit_def isAnyButNewline_def)
  have all: "list_all isAnyButNewline ?s"
    using assms(4) digits by (simp add: isAnyButNewline_def)
  have hd: "?s \<noteq> []" "\<not> isReSpace (hd ?s)" using assms(1,2) by simp_all
  have "run (tocTail k) (pre, CHR '' '' # ?s, caps)
      = run (Cat (Group k (LazyPlus (Chr isAnyButNewline))) (tocEnd (Suc k))) (?pre, ?s, caps)"
    unfolding tocTail_tocEnd run.simps(3) run_Plus_one [OF sp hd] by simp
  also have "\<dots> = concat (map ?g [0..<length ?s])"
    by (rule run_Group_LazyPlus [OF all])
  also have "\<dots> = ?g ?i0"
  proof (rule concat_map_single)
    show "?i0 < length ?s" using assms(1) by simp
  next
    fix i assume i: "i < length ?s" "i \<noteq> ?i0"
    show "?g i = []"
    proof (cases "Suc i < length title")
      case True
      let ?t = "drop (Suc i) title"
      have t: "?t \<noteq> []" using True by simp
      have "last ?t = last title" using True by simp
      with assms(3) have l: "\<not> isReSpace (last ?t)" by simp
      have "drop (Suc i) ?s = ?t @ CHR '' '' # P" using True by simp
      then show ?thesis by (simp only: run_tocEnd_inside [OF t l assms(5,6)])
    next
      case False
      with i i0 have gt: "length title < Suc i" by simp
      then have "drop (Suc i) ?s = drop (Suc i - length title) (CHR '' '' # P)" by simp
      also have "\<dots> = drop (i - length title) P"
        using gt by (simp add: Suc_diff_le drop_Cons split: nat.splits)
      finally have d: "drop (Suc i) ?s = drop (i - length title) P" .
      have "list_all isDigit (drop (i - length title) P)"
        using assms(6) by (auto simp: list_all_iff dest: in_set_dropD)
      then show ?thesis by (simp only: d run_tocEnd_in_page)
    qed
  qed
  also have "?g ?i0 = [(rev P @ CHR '' '' # rev title @ ?pre, [], caps[k := title, Suc k := P])]"
    unfolding i0 using run_tocEnd_at_page [OF assms(5,6)] by simp
  finally show ?thesis .
qed

lemma concat_map_hits_aux:
  assumes "\<And>x. x \<in> set xs \<Longrightarrow> x \<noteq> q0 \<Longrightarrow> f x = []" and "f q0 = [r]"
  shows "\<exists>n. concat (map f xs) = replicate n r \<and> (q0 \<in> set xs \<longrightarrow> 0 < n)"
  using assms(1)
proof (induction xs)
  case Nil
  then show ?case by simp
next
  case (Cons x xs)
  then obtain n where n: "concat (map f xs) = replicate n r" "q0 \<in> set xs \<longrightarrow> 0 < n"
    by auto
  show ?case
  proof (cases "x = q0")
    case True
    then have "concat (map f (x # xs)) = replicate (Suc n) r"
      using n(1) assms(2) by simp
    then show ?thesis by blast
  next
    case False
    then have "f x = []" using Cons.prems by simp
    then have "concat (map f (x # xs)) = replicate n r" using n(1) by simp
    then show ?thesis using n(2) False by auto
  qed
qed

lemma concat_map_hits:
  assumes "q0 \<in> set xs" and "\<And>x. x \<in> set xs \<Longrightarrow> x \<noteq> q0 \<Longrightarrow> f x = []" and "f q0 = [r]"
  shows "\<exists>n. concat (map f xs) = r # replicate n r"
proof -
  from concat_map_hits_aux [of xs q0 f r, OF assms(2,3)] assms(1)
  obtain n where "concat (map f xs) = replicate n r" "0 < n" by blast
  then show ?thesis by (cases n) auto
qed

lemma numChar_not_space: "numChar c \<Longrightarrow> \<not> isReSpace c"
  by (auto simp: numChar_def isReSpace_def isDigit_def)

lemma upper_not_space: "isUpper c \<Longrightarrow> \<not> isReSpace c"
  by (auto simp: isUpper_def isReSpace_def)

lemma groups_numChar:
  "list_all (\<lambda>g. g \<noteq> [] \<and> list_all isDigit g) groups
     \<Longrightarrow> list_all numChar (concat (map (\<lambda>g. CHR ''.'' # g) groups))"
  by (induction groups) (auto simp: numChar_def list_all_iff)

text \<open>The positions after the number token \<open>[A-Z](?:\.[0-9]+)*\<close> with its group.\<close>

lemma in_run_numGroup:
  assumes "isUpper u"
    and "x \<in> set (run (Group k (Cat (Chr isUpper) (Star dotDigits))) (pre, u # s, caps))"
  shows "\<exists>w r. s = w @ r \<and> list_all numChar w \<and> x = (rev w @ u # pre, r, caps[k := u # w])"
proof -
  from assms obtain q where q: "q \<in> set (run (Star dotDigits) (u # pre, s, caps))"
    "x = (case q of (pre', s', caps') \<Rightarrow> (pre', s', caps'[k := take (length (u # s) - length s') (u # s)]))"
    by auto
  from run_Star_sound [OF q(1)] obtain w r where w: "s = w @ r" "q = (rev w @ u # pre, r, caps)"
    "list_all numChar w" by blast
  have "take (length (u # s) - length r) (u # s) = u # w" using w(1) by simp
  then have "x = (rev w @ u # pre, r, caps[k := u # w])" using q(2) w(2) by simp
  with w show ?thesis by blast
qed

lemma numGroup_complete:
  assumes "isUpper u" and "list_all (\<lambda>g. g \<noteq> [] \<and> list_all isDigit g) groups"
    and "body = concat (map (\<lambda>g. CHR ''.'' # g) groups)"
  shows "(rev body @ u # pre, r, caps[k := u # body])
           \<in> set (run (Group k (Cat (Chr isUpper) (Star dotDigits))) (pre, u # body @ r, caps))"
proof -
  let ?G = "\<lambda>(pre', s', caps'). (pre', s', caps'[k := take (length (u # body @ r) - length s') (u # body @ r)])"
  have "(rev body @ u # pre, r, caps) \<in> set (run (Star dotDigits) (u # pre, body @ r, caps))"
    unfolding assms(3) using assms(2) by (rule run_Star_complete)
  then have "?G (rev body @ u # pre, r, caps)
      \<in> ?G ` set (run (Star dotDigits) (u # pre, body @ r, caps))"
    by (rule imageI)
  moreover have "?G (rev body @ u # pre, r, caps) = (rev body @ u # pre, r, caps[k := u # body])"
    by simp
  ultimately show ?thesis using assms(1) by simp
qed

lemma run_numGroup_tail:
  assumes "isUpper u" and "list_all (\<lambda>g. g \<noteq> [] \<and> list_all isDigit g) groups"
    and "body = concat (map (\<lambda>g. CHR ''.'' # g) groups)"
    and "title \<noteq> []" and "\<not> isReSpace (hd title)" and "\<not> isReSpace (last title)"
    and "list_all isAnyButNewline title" and "P \<noteq> []" and "list_all isDigit P"
  shows "\<exists>n. run (Cat (Group 1 (Cat (Chr isUpper) (Star dotDigits))) (tocTail 2))
                (pre, u # body @ CHR '' '' # title @ CHR '' '' # P, caps)
            = (rev P @ CHR '' '' # rev title @ CHR '' '' # rev body @ u # pre, [],
               caps[1 := u # body, 2 := title, 3 := P])
              # replicate n (rev P @ CHR '' '' # rev title @ CHR '' '' # rev body @ u # pre, [],
               caps[1 := u # body, 2 := title, 3 := P])"
proof -
  let ?rest = "CHR '' '' # title @ CHR '' '' # P"
  let ?q0 = "(rev body @ u # pre, ?rest, caps[1 := u # body])"
  let ?N = "Group 1 (Cat (Chr isUpper) (Star dotDigits))"
  let ?xs = "run ?N (pre, u # body @ ?rest, caps)"
  have body: "list_all numChar body" unfolding assms(3) using assms(2) by (rule groups_numChar)
  have sp: "\<not> numChar (CHR '' '')" by (simp add: numChar_def isDigit_def)
  have hit: "?q0 \<in> set ?xs" by (rule numGroup_complete [OF assms(1,2,3)])
  have miss: "run (tocTail 2) x = []" if x: "x \<in> set ?xs" "x \<noteq> ?q0" for x
  proof -
    from in_run_numGroup [OF assms(1) x(1)] obtain w r where w: "body @ ?rest = w @ r"
      "list_all numChar w" "x = (rev w @ u # pre, r, caps[1 := u # w])" by blast
    from w(1) obtain us where "w = body @ us \<and> us @ r = ?rest \<or> w @ us = body \<and> r = us @ ?rest"
      unfolding append_eq_append_conv2 by metis
    then consider (long) "w = body @ us" "us @ r = ?rest" | (short) "w @ us = body" "r = us @ ?rest"
      by blast
    then show ?thesis
    proof cases
      case long
      show ?thesis
      proof (cases us)
        case Nil
        with long w(3) x(2) show ?thesis by simp
      next
        case (Cons c cs)
        with long have "c = CHR '' ''" "c \<in> set w" by simp_all
        with w(2) sp show ?thesis by (simp add: list_all_iff)
      qed
    next
      case short
      show ?thesis
      proof (cases us)
        case Nil
        with short w(3) x(2) show ?thesis by simp
      next
        case (Cons c cs)
        with short have "c \<in> set body" "hd r = c" "r \<noteq> []" by auto
        with body have "\<not> isReSpace (hd r)" by (simp add: list_all_iff numChar_not_space)
        then show ?thesis unfolding w(3) by (simp add: run_tocTail_fails)
      qed
    qed
  qed
  have one: "run (tocTail 2) ?q0 =
      [(rev P @ CHR '' '' # rev title @ CHR '' '' # rev body @ u # pre, [],
        caps[1 := u # body, 2 := title, 3 := P])]"
    using run_tocTail [OF assms(4-9), of 2 "rev body @ u # pre" "caps[1 := u # body]"]
    by (simp add: numeral_3_eq_3 numeral_2_eq_2)
  let ?r = "(rev P @ CHR '' '' # rev title @ CHR '' '' # rev body @ u # pre, [],
        caps[1 := u # body, 2 := title, 3 := P])"
  have "\<exists>n. concat (map (run (tocTail 2)) ?xs) = ?r # replicate n ?r"
  proof (rule concat_map_hits [where ?q0.0 = ?q0])
    show "?q0 \<in> set ?xs" by (rule hit)
  next
    fix x assume "x \<in> set ?xs" "x \<noteq> ?q0"
    then show "run (tocTail 2) x = []" by (rule miss)
  next
    show "run (tocTail 2) ?q0 = [?r]" by (rule one)
  qed
  then show ?thesis by (simp only: run.simps(3))
qed

lemma run_appendix_front:
  assumes "kw = ''Appendix'' \<or> kw = ''APPENDIX''"
  shows "run (Cat Bol (Cat (Star (Chr isReSpace))
            (Cat (Alt (Lit ''Appendix'') (Lit ''APPENDIX'')) b))) ([], kw @ r, caps)
         = run b (rev kw, r, caps)"
proof -
  have "takeWhile isReSpace (kw @ r) = []"
    using assms by (auto simp: isReSpace_def)
  then have "run (Star (Chr isReSpace)) ([], kw @ r, caps) = [([], kw @ r, caps)]"
    by (simp add: run_Star_Chr)
  then have "run (Cat Bol (Cat (Star (Chr isReSpace))
            (Cat (Alt (Lit ''Appendix'') (Lit ''APPENDIX'')) b))) ([], kw @ r, caps)
      = concat (map (run b) (run (Alt (Lit ''Appendix'') (Lit ''APPENDIX'')) ([], kw @ r, caps)))"
    by simp
  also have "run (Alt (Lit ''Appendix'') (Lit ''APPENDIX'')) ([], kw @ r, caps) = [(rev kw, r, caps)]"
    using assms by auto
  finally show ?thesis by simp
qed

lemma run_Plus_one_Cat:
  assumes "Q c" and "s \<noteq> []" and "\<not> Q (hd s)"
  shows "run (Cat (Plus (Chr Q)) b) (pre, c # s, caps) = run b (c # pre, s, caps)"
  by (simp add: run_Plus_one [OF assms])

lemma tocAppendixRe_dotDigits:
  "tocAppendixRe =
     Cat Bol (Cat (Star (Chr isReSpace))
       (Cat (Alt (Lit ''Appendix'') (Lit ''APPENDIX''))
          (Cat (Plus (Chr isReSpace))
             (Cat (Group 1 (Cat (Chr isUpper) (Star dotDigits))) (tocTail 2)))))"
  by (simp only: tocAppendixRe_def dotDigits_def)

lemma tocAlphaRe_dotDigits:
  "tocAlphaRe =
     Cat Bol (Cat (Star (Chr isReSpace))
       (Cat (Group 1 (Cat (Chr isUpper) (Star dotDigits))) (tocTail 2)))"
  by (simp only: tocAlphaRe_def dotDigits_def)

lemma findFrom_Bol: "pre \<noteq> [] \<Longrightarrow> findFrom (Cat Bol r) n pre s = None"
  by (induction s arbitrary: pre) simp_all

lemma find_at_start_only:
  assumes "run (Cat Bol r) ([], s, replicate (Suc n) []) = []"
  shows "FindStringSubmatch (Cat Bol r) n s = None"
proof (cases s)
  case Nil
  with assms show ?thesis by (simp add: FindStringSubmatch_def)
next
  case (Cons c cs)
  have "findFrom (Cat Bol r) n [c] cs = None" by (rule findFrom_Bol) simp
  with assms Cons show ?thesis by (simp add: FindStringSubmatch_def)
qed

lemma find_first:
  assumes "run r ([], s, replicate (Suc n) []) = (pre', [], caps) # rest"
  shows "FindStringSubmatch r n s = Some (caps[0 := s])"
  using assms by (simp add: FindStringSubmatch_def)

lemma appendix_line_match:
  assumes kw: "kw = ''Appendix'' \<or> kw = ''APPENDIX''"
    and u: "isUpper u" and groups: "list_all (\<lambda>g. g \<noteq> [] \<and> list_all isDigit g) groups"
    and L: "L = u # concat (map (\<lambda>g. CHR ''.'' # g) groups)"
    and title: "title \<noteq> []" "\<not> isReSpace (hd title)" "\<not> isReSpace (last title)"
      "list_all isAnyButNewline title"
    and P: "P \<noteq> []" "list_all isDigit P"
    and line: "line = kw @ '' '' @ L @ '' '' @ title @ '' '' @ P"
  shows "FindStringSubmatch tocAppendixRe 3 line = Some [line, L, title, P]"
proof -
  define body where "body = concat (map (\<lambda>g. CHR ''.'' # g) groups)"
  let ?rest = "u # body @ CHR '' '' # title @ CHR '' '' # P"
  let ?caps = "replicate (Suc 3) ([]::string)"
  have l: "line = kw @ CHR '' '' # ?rest" by (simp add: line L body_def)
  have sp: "isReSpace (CHR '' '')" by (simp add: isReSpace_def)
  have hd: "?rest \<noteq> []" "\<not> isReSpace (hd ?rest)" using u by (simp_all add: upper_not_space)
  from run_numGroup_tail [OF u groups body_def title P, of "CHR '' '' # rev kw" ?caps]
  obtain n where n: "run (Cat (Group 1 (Cat (Chr isUpper) (Star dotDigits))) (tocTail 2))
                (CHR '' '' # rev kw, ?rest, ?caps)
            = (rev P @ CHR '' '' # rev title @ CHR '' '' # rev body @ u # CHR '' '' # rev kw, [],
               ?caps[1 := u # body, 2 := title, 3 := P])
              # replicate n (rev P @ CHR '' '' # rev title @ CHR '' '' # rev body @ u # CHR '' '' # rev kw, [],
               ?caps[1 := u # body, 2 := title, 3 := P])"
    by blast
  have "run tocAppendixRe ([], line, ?caps)
      = run (Cat (Group 1 (Cat (Chr isUpper) (Star dotDigits))) (tocTail 2))
          (CHR '' '' # rev kw, ?rest, ?caps)"
    unfolding tocAppendixRe_dotDigits l run_appendix_front [OF kw]
    by (rule run_Plus_one_Cat [OF sp hd])
  from find_first [OF this [unfolded n]]
  have "FindStringSubmatch tocAppendixRe 3 line
      = Some ((?caps[1 := u # body, 2 := title, 3 := P])[0 := line])" .
  also have "(?caps[1 := u # body, 2 := title, 3 := P])[0 := line] = [line, L, title, P]"
    by (simp add: numeral_3_eq_3 numeral_2_eq_2 L body_def)
  finally show ?thesis .
qed

lemma alpha_fails_on_word:
  assumes "isUpper u" and "\<not> numChar c" and "\<not> isReSpace c"
  shows "FindStringSubmatch tocAlphaRe n (u # c # s) = None"
proof -
  let ?caps = "replicate (Suc n) ([]::string)"
  let ?N = "Group 1 (Cat (Chr isUpper) (Star dotDigits))"
  have "takeWhile isReSpace (u # c # s) = []"
    using assms(1) by (simp add: upper_not_space)
  then have st: "run (Star (Chr isReSpace)) ([], u # c # s, ?caps) = [([], u # c # s, ?caps)]"
    by (simp add: run_Star_Chr)
  have none: "concat (map (run (tocTail 2)) (run ?N ([], u # c # s, ?caps))) = []"
  proof (rule concat_all_empty)
    fix x assume "x \<in> set (run ?N ([], u # c # s, ?caps))"
    from in_run_numGroup [OF assms(1) this] obtain w r where w: "c # s = w @ r"
      "list_all numChar w" "x = (rev w @ [u], r, ?caps[1 := u # w])" by blast
    have "w = []"
    proof (cases w)
      case (Cons a as)
      with w(1,2) assms(2) show ?thesis by simp
    qed simp
    with w(1) have "r = c # s" by simp
    then show "run (tocTail 2) x = []"
      unfolding w(3) using assms(3) by (simp add: run_tocTail_fails)
  qed
  have "run (Cat Bol (Cat (Star (Chr isReSpace)) (Cat ?N (tocTail 2)))) ([], u # c # s, ?caps)
      = concat (map (run (Cat ?N (tocTail 2))) (run (Star (Chr isReSpace)) ([], u # c # s, ?caps)))"
    by (simp only: run.simps(3) run.simps(8) refl if_True list.map concat.simps append_Nil2)
  also have "\<dots> = run (Cat ?N (tocTail 2)) ([], u # c # s, ?caps)"
    by (simp only: st list.map concat.simps append_Nil2)
  also have "\<dots> = concat (map (run (tocTail 2)) (run ?N ([], u # c # s, ?caps)))"
    by (simp only: run.simps(3))
  also have "\<dots> = []" by (rule none)
  finally show ?thesis
    unfolding tocAlphaRe_dotDigits by (rule find_at_start_only)
qed

section \<open>Appendix lines\<close>

lemma countDots_groups:
  "list_all (\<lambda>g. g \<noteq> [] \<and> list_all isDigit g) groups
     \<Longrightarrow> countDots (concat (map (\<lambda>g. CHR ''.'' # g) groups)) = length groups"
proof (induction groups)
  case Nil
  then show ?case by (simp add: countDots_def)
next
  case (Cons g gs)
  then have "list_all isDigit g" by simp
  then have "filter (\<lambda>c. c = CHR ''.'') g = []"
    by (auto simp: list_all_iff isDigit_def filter_empty_conv)
  with Cons show ?case by (simp add: countDots_def)
qed

lemma word_after_upper:
  assumes "kw = ''Appendix'' \<or> kw = ''APPENDIX''"
  shows "\<exists>u c s. kw @ r = u # c # s \<and> isUpper u \<and> \<not> numChar c \<and> \<not> isReSpace c"
  using assms by (auto simp: isUpper_def numChar_def isReSpace_def isDigit_def)

text \<open>
  C6: let a line be \<open>Appendix\<close> or \<open>APPENDIX\<close>, a space, a number token \<open>L\<close> (an upper-case
  letter and any number of groups of a dot and digits), a space, a title (not empty,
  without line feed, neither starting nor ending with white space), a space and a page
  \<open>P\<close> of digits. Then the appendix pattern matches the whole line with the groups \<open>L\<close>,
  the title and \<open>P\<close>; the alphabetic pattern does not match the line; and matchToC
  returns the entry with the number \<open>L\<close>, without the word, the page read from \<open>P\<close> and
  the depth one more than the number of dotted groups. On every line that the appendix
  pattern matches, matchToC returns the entry of that match, whatever the other
  patterns do: the appendix pattern is tried first.
\<close>

theorem matchToC_appendix_first:
  assumes "kw = ''Appendix'' \<or> kw = ''APPENDIX''"
    and "isUpper u" and "list_all (\<lambda>g. g \<noteq> [] \<and> list_all isDigit g) groups"
    and "L = u # concat (map (\<lambda>g. CHR ''.'' # g) groups)"
    and "title \<noteq> []" and "\<not> isReSpace (hd title)" and "\<not> isReSpace (last title)"
    and "list_all isAnyButNewline title"
    and "P \<noteq> []" and "list_all isDigit P"
    and "line = kw @ '' '' @ L @ '' '' @ title @ '' '' @ P"
  shows "FindStringSubmatch tocAppendixRe 3 line = Some [line, L, title, P]
    \<and> FindStringSubmatch tocAlphaRe 3 line = None
    \<and> matchToC line = Some \<lparr>Number = L, Title = trimSpace title, Page = atoi P,
                              Depth = of_nat (length groups) + 1\<rparr>
    \<and> (\<forall>s m. FindStringSubmatch tocAppendixRe 3 s = Some m \<longrightarrow>
          matchToC s = Some \<lparr>Number = m ! 1, Title = trimSpace (m ! 2), Page = atoi (m ! 3),
                              Depth = of_nat (countDots (m ! 1)) + 1\<rparr>)"
proof -
  have app: "FindStringSubmatch tocAppendixRe 3 line = Some [line, L, title, P]"
    using assms by (rule appendix_line_match)
  from word_after_upper [OF assms(1), of "'' '' @ L @ '' '' @ title @ '' '' @ P"]
  obtain a c s where acs: "line = a # c # s" "isUpper a" "\<not> numChar c" "\<not> isReSpace c"
    unfolding assms(11) by blast
  have alpha: "FindStringSubmatch tocAlphaRe 3 line = None"
    unfolding acs(1) using acs(2,3,4) by (rule alpha_fails_on_word)
  have "countDots L = length groups"
  proof -
    have "u \<noteq> CHR ''.''"
      using assms(2) by (auto simp: isUpper_def)
    then show ?thesis
      using countDots_groups [OF assms(3)] by (simp add: assms(4) countDots_def)
  qed
  then have entry: "matchToC line = Some \<lparr>Number = L, Title = trimSpace title, Page = atoi P,
                              Depth = of_nat (length groups) + 1\<rparr>"
    unfolding matchToC_def app by (simp add: numeral_3_eq_3 numeral_2_eq_2)
  have first: "\<forall>s m. FindStringSubmatch tocAppendixRe 3 s = Some m \<longrightarrow>
          matchToC s = Some \<lparr>Number = m ! 1, Title = trimSpace (m ! 2), Page = atoi (m ! 3),
                              Depth = of_nat (countDots (m ! 1)) + 1\<rparr>"
    by (simp add: matchToC_def)
  from app alpha entry first show ?thesis by (intro conjI)
qed

theorem matchToC_appendix_first_witness:
  "isUpper (CHR ''A'') \<and> list_all (\<lambda>g. g \<noteq> [] \<and> list_all isDigit g) [''1'']
   \<and> \<not> isReSpace (hd ''Tools'') \<and> \<not> isReSpace (last ''Tools'')
   \<and> list_all isAnyButNewline ''Tools'' \<and> list_all isDigit ''12''
   \<and> FindStringSubmatch tocAppendixRe 3 ''Appendix A.1 Tools 12''
        = Some [''Appendix A.1 Tools 12'', ''A.1'', ''Tools'', ''12'']
   \<and> FindStringSubmatch tocAlphaRe 3 ''Appendix A.1 Tools 12'' = None
   \<and> matchToC ''Appendix A.1 Tools 12''
        = Some \<lparr>Number = ''A.1'', Title = ''Tools'', Page = 12, Depth = 2\<rparr>"
proof -
  have h: "isUpper (CHR ''A'')" "list_all (\<lambda>g. g \<noteq> [] \<and> list_all isDigit g) [''1'']"
    "\<not> isReSpace (hd ''Tools'')" "\<not> isReSpace (last ''Tools'')"
    "list_all isAnyButNewline ''Tools''" "list_all isDigit ''12''"
    by code_simp+
  have v: "trimSpace ''Tools'' = ''Tools''" "atoi ''12'' = 12"
    by code_simp+
  have "''Appendix A.1 Tools 12'' = ''Appendix'' @ '' '' @ ''A.1'' @ '' '' @ ''Tools'' @ '' '' @ ''12''"
    "''A.1'' = CHR ''A'' # concat (map (\<lambda>g. CHR ''.'' # g) [''1''])"
    by simp_all
  from matchToC_appendix_first [OF _ h(1,2) this(2) _ h(3,4,5) _ h(6) this(1)]
  have "FindStringSubmatch tocAppendixRe 3 ''Appendix A.1 Tools 12''
        = Some [''Appendix A.1 Tools 12'', ''A.1'', ''Tools'', ''12'']
    \<and> FindStringSubmatch tocAlphaRe 3 ''Appendix A.1 Tools 12'' = None
    \<and> matchToC ''Appendix A.1 Tools 12''
        = Some \<lparr>Number = ''A.1'', Title = trimSpace ''Tools'', Page = atoi ''12'',
                 Depth = of_nat (length [''1'']) + 1\<rparr>"
    by simp
  then show ?thesis using h unfolding v by simp
qed

section \<open>The entry matcher on a leader of literal dots\<close>

text \<open>
  C5 fails on the code: the decimal entry \<open>1.2 Overview....................7\<close>, with a
  leader of 20 dots, is returned unchanged by normalizeDotLeaders and matched by no
  pattern, so that no entry is returned. The same entry with a leader of bullets, of an
  ellipsis character or of 106 dots is matched, with the number \<open>1.2\<close>, the page 7 and
  the depth 2; so is the entry whose 20 dots are set off by spaces, the dots staying
  in its title.
\<close>

theorem matchToC_literal_dot_leader:
  "normalizeDotLeaders ex_dotLine = ex_dotLine
   \<and> matchToC (normalizeDotLeaders ex_dotLine) = None
   \<and> matchToC (normalizeDotLeaders (''1.2 Overview'' @ bullet @ bullet @ bullet @ ''7''))
       = Some \<lparr>Number = ''1.2'', Title = ''Overview'', Page = 7, Depth = 2\<rparr>
   \<and> matchToC (normalizeDotLeaders (''1.2 Overview'' @ ellipsis @ ''7''))
       = Some \<lparr>Number = ''1.2'', Title = ''Overview ...'', Page = 7, Depth = 2\<rparr>
   \<and> matchToC (normalizeDotLeaders (''1.2 Overview'' @ dotRun @ ''7''))
       = Some \<lparr>Number = ''1.2'', Title = ''Overview'', Page = 7, Depth = 2\<rparr>
   \<and> matchToC (normalizeDotLeaders (''1.2 Overview '' @ replicate 20 (CHR ''.'') @ '' 7''))
       = Some \<lparr>Number = ''1.2'', Title = ''Overview ....................'', Page = 7,
                 Depth = 2\<rparr>"
  by code_simp

end
